theory Spec2Isabelle
  imports Complex_Main
begin

section \<open>Conventions of the embedding\<close>

text \<open>
  The development embeds functions of \<^verbatim>\<open>_levenshtein.c\<close>.

  \<^item> A C string with its explicit length is a list of symbols; \<^verbatim>\<open>lev_byte\<close> is
    \<^typ>\<open>char\<close>, and the wide-character functions are polymorphic in the symbol type
    (\<^verbatim>\<open>lev_wchar\<close> is declared in the header, which only fixes that symbols are compared
    with \<^verbatim>\<open>==\<close>).
  \<^item> \<^verbatim>\<open>size_t\<close> values are natural numbers. In the distance kernel, the search for edit
    operations and the medians every value computed is bounded by the sum of the lengths of
    the arguments, so no wrap-around occurs for arguments that fit into memory; the places
    where the source decrements or subtracts are commented where they occur. In the
    conversions between edit operations and block codes the positions are input data, and
    the wrap-around of the 64 bits of \<^verbatim>\<open>size_t\<close> is written out.
  \<^item> \<^verbatim>\<open>safe_malloc\<close> comes from the header; whether a request succeeds is a parameter
    \<open>heap\<close>: \<open>heap n = None\<close> is a failed request for \<open>n\<close> cells, and \<open>heap n = Some f\<close> is a
    fresh block whose cell \<open>k\<close> holds the indeterminate value \<open>f k\<close> until the program
    writes it.
  \<^item> \<^verbatim>\<open>realloc\<close> of a block to \<open>n\<close> cells has a parameter of its own, \<open>realloc n\<close>, which tells
    whether the call returns a block. For \<open>n = 0\<close> the C library decides: it may free the
    block and return \<^verbatim>\<open>NULL\<close>, as glibc does, or return a block of no cells.
  \<^item> A \<^verbatim>\<open>double\<close> is the real number it stands for. In the set median and the greedy
    median the sums and products are exact; the inputs they are evaluated at involve no
    rounding. The quick median has the rounding of its arithmetic as a parameter.
\<close>

type_synonym lev_byte = char

type_synonym heap = "nat \<Rightarrow> (nat \<Rightarrow> nat) option"

datatype lev_error =
    NoMemory           \<comment> \<open>an allocation failed: the functions return \<^verbatim>\<open>(size_t)(-1)\<close> or \<^verbatim>\<open>NULL\<close>\<close>
  | AssertionFailed    \<comment> \<open>an \<^verbatim>\<open>assert\<close> of the source failed\<close>
  | OutOfBounds        \<comment> \<open>a read or write outside the array, or a conversion out of the range of \<^verbatim>\<open>size_t\<close>\<close>
  | Uninitialised      \<comment> \<open>a read of a cell that was allocated and never written\<close>

section \<open>Edit scripts: what the distance is the minimum of\<close>

text \<open>
  An edit script is read from left to right along the source string. \<open>Copy\<close> keeps the
  current symbol and is not an edit operation; \<open>Subst c\<close> replaces it by \<open>c\<close>, \<open>Del\<close> deletes
  it and \<open>Ins c\<close> inserts \<open>c\<close> before it. A script has to consume the whole source.
\<close>

datatype 'a edit = Copy | Subst 'a | Ins 'a | Del

fun transform :: "'a edit list \<Rightarrow> 'a list \<Rightarrow> 'a list option" where
  "transform [] [] = Some []"
| "transform [] (x # xs) = None"
| "transform (Ins c # es) xs = map_option (Cons c) (transform es xs)"
| "transform (e # es) [] = None"
| "transform (Copy # es) (x # xs) = map_option (Cons x) (transform es xs)"
| "transform (Subst c # es) (x # xs) = map_option (Cons c) (transform es xs)"
| "transform (Del # es) (x # xs) = transform es xs"

text \<open>The cost of a script; \<open>sc\<close> is the cost of one substitution.\<close>

fun edit_cost :: "nat \<Rightarrow> 'a edit \<Rightarrow> nat" where
  "edit_cost sc Copy = 0"
| "edit_cost sc (Subst c) = sc"
| "edit_cost sc (Ins c) = 1"
| "edit_cost sc Del = 1"

definition script_cost :: "nat \<Rightarrow> 'a edit list \<Rightarrow> nat" where
  "script_cost sc es = sum_list (map (edit_cost sc) es)"

text \<open>\<open>d\<close> is the minimum cost of a script that converts \<open>a\<close> into \<open>b\<close>.\<close>

definition min_edit_cost :: "nat \<Rightarrow> 'a list \<Rightarrow> 'a list \<Rightarrow> nat \<Rightarrow> bool" where
  "min_edit_cost sc a b d \<longleftrightarrow>
     (\<exists>es. transform es a = Some b \<and> script_cost sc es = d) \<and>
     (\<forall>es. transform es a = Some b \<longrightarrow> d \<le> script_cost sc es)"

text \<open>The textbook recurrence, used as the reference value in the proofs.\<close>

fun lev :: "nat \<Rightarrow> 'a list \<Rightarrow> 'a list \<Rightarrow> nat" where
  "lev sc [] ys = length ys"
| "lev sc (x # xs) [] = Suc (length xs)"
| "lev sc (x # xs) (y # ys) =
     min (min (Suc (lev sc xs (y # ys))) (Suc (lev sc (x # xs) ys)))
         (lev sc xs ys + (if x = y then 0 else sc))"

section \<open>The distance kernel\<close>

subsection \<open>Stripping the common prefix and suffix\<close>

text \<open>
  \<^verbatim>\<open>while (len1 > 0 && len2 > 0 && *string1 == *string2) { len1--; len2--; string1++; string2++; }\<close>
\<close>

fun strip_common_prefix :: "'a list \<Rightarrow> 'a list \<Rightarrow> 'a list \<times> 'a list" where
  "strip_common_prefix (x # xs) (y # ys) =
     (if x = y then strip_common_prefix xs ys else (x # xs, y # ys))"
| "strip_common_prefix xs ys = (xs, ys)"

text \<open>
  \<^verbatim>\<open>while (len1 > 0 && len2 > 0 && string1[len1-1] == string2[len2-1]) { len1--; len2--; }\<close>
\<close>

function strip_common_suffix :: "'a list \<Rightarrow> 'a list \<Rightarrow> 'a list \<times> 'a list" where
  "strip_common_suffix xs ys =
     (if xs \<noteq> [] \<and> ys \<noteq> [] \<and> last xs = last ys
      then strip_common_suffix (butlast xs) (butlast ys) else (xs, ys))"
  by pat_completeness auto
termination
  by (relation "measure (\<lambda>(xs, ys). length xs)") auto

declare strip_common_suffix.simps [simp del]

subsection \<open>The row sweep with substitution cost 2\<close>

text \<open>
  The inner loop of the \<^verbatim>\<open>xcost\<close> branch of \<^verbatim>\<open>lev_edit_distance\<close>; \<open>p\<close> and \<open>char2p\<close> are
  the offsets of the two pointers into \<open>row\<close> and \<open>string2\<close>, \<open>e\<close> is the offset of \<^verbatim>\<open>end\<close>.
  \<^verbatim>\<open>--D\<close> never wraps: \<open>D\<close> is \<open>i \<ge> 1\<close> or one more than a cell.
\<close>

function xcost_sweep ::
  "'a \<Rightarrow> 'a list \<Rightarrow> nat \<Rightarrow> nat list \<Rightarrow> nat \<Rightarrow> nat \<Rightarrow> nat \<Rightarrow> nat \<Rightarrow> nat list" where
  "xcost_sweep char1 string2 e row p char2p D x =
     (if p \<le> e then
        let x1 = (if char1 = string2 ! char2p then D - 1 else x + 1);
            D1 = row ! p + 1;
            x2 = (if x1 > D1 then D1 else x1)
        in xcost_sweep char1 string2 e (row[p := x2]) (p + 1) (char2p + 1) D1 x2
      else row)"
  by pat_completeness auto
termination
  by (relation "measure (\<lambda>(char1, string2, e, row, p, char2p, D, x). e + 1 - p)") auto

declare xcost_sweep.simps [simp del]

text \<open>\<^verbatim>\<open>for (i = 1; i < len1; i++)\<close> around it; \<open>len1\<close> is the incremented length.\<close>

function xcost_rows :: "'a list \<Rightarrow> 'a list \<Rightarrow> nat \<Rightarrow> nat \<Rightarrow> nat \<Rightarrow> nat list \<Rightarrow> nat list" where
  "xcost_rows string1 string2 len1 e i row =
     (if i < len1 then
        xcost_rows string1 string2 len1 e (i + 1)
          (xcost_sweep (string1 ! (i - 1)) string2 e row 1 0 i i)
      else row)"
  by pat_completeness auto
termination
  by (relation "measure (\<lambda>(string1, string2, len1, e, i, row). len1 - i)") auto

declare xcost_rows.simps [simp del]

text \<open>
  The same two loops in \<^verbatim>\<open>lev_u_edit_distance\<close>, which keeps \<open>D\<close> one lower:
  \<^verbatim>\<open>D = i - 1\<close>, \<^verbatim>\<open>x = D\<close> on a match, and the comparison is with \<^verbatim>\<open>D + 1\<close>.
\<close>

function u_xcost_sweep ::
  "'a \<Rightarrow> 'a list \<Rightarrow> nat \<Rightarrow> nat list \<Rightarrow> nat \<Rightarrow> nat \<Rightarrow> nat \<Rightarrow> nat \<Rightarrow> nat list" where
  "u_xcost_sweep char1 string2 e row p char2p D x =
     (if p \<le> e then
        let x1 = (if char1 = string2 ! char2p then D else x + 1);
            D1 = row ! p;
            x2 = (if x1 > D1 + 1 then D1 + 1 else x1)
        in u_xcost_sweep char1 string2 e (row[p := x2]) (p + 1) (char2p + 1) D1 x2
      else row)"
  by pat_completeness auto
termination
  by (relation "measure (\<lambda>(char1, string2, e, row, p, char2p, D, x). e + 1 - p)") auto

declare u_xcost_sweep.simps [simp del]

function u_xcost_rows :: "'a list \<Rightarrow> 'a list \<Rightarrow> nat \<Rightarrow> nat \<Rightarrow> nat \<Rightarrow> nat list \<Rightarrow> nat list" where
  "u_xcost_rows string1 string2 len1 e i row =
     (if i < len1 then
        u_xcost_rows string1 string2 len1 e (i + 1)
          (u_xcost_sweep (string1 ! (i - 1)) string2 e row 1 0 (i - 1) i)
      else row)"
  by pat_completeness auto
termination
  by (relation "measure (\<lambda>(string1, string2, len1, e, i, row). len1 - i)") auto

declare u_xcost_rows.simps [simp del]

subsection \<open>The row sweep with unit costs, skipping the two corner triangles\<close>

text \<open>The \<^verbatim>\<open>/* main */\<close> loop; it returns the locals that the sentinel step reads.\<close>

function band_sweep ::
  "'a \<Rightarrow> 'a list \<Rightarrow> nat \<Rightarrow> nat list \<Rightarrow> nat \<Rightarrow> nat \<Rightarrow> nat \<Rightarrow> nat \<Rightarrow>
   nat list \<times> nat \<times> nat \<times> nat \<times> nat" where
  "band_sweep char1 string2 e row p char2p D x =
     (if p \<le> e then
        let c3 = (D - 1) + (if char1 \<noteq> string2 ! char2p then 1 else 0);
            x1 = x + 1;
            x2 = (if x1 > c3 then c3 else x1);
            D1 = row ! p + 1;
            x3 = (if x2 > D1 then D1 else x2)
        in band_sweep char1 string2 e (row[p := x3]) (p + 1) (char2p + 1) D1 x3
      else (row, p, char2p, D, x))"
  by pat_completeness auto
termination
  by (relation "measure (\<lambda>(char1, string2, e, row, p, char2p, D, x). e + 1 - p)") auto

declare band_sweep.simps [simp del]

text \<open>
  The start of row \<open>i\<close> in the unit-cost branch. Behind the upper triangle
  (\<^verbatim>\<open>i >= len1 - half\<close>) the first cell is computed from the cell above and the diagonal
  one only; otherwise the row starts at column 1 with \<^verbatim>\<open>D = x = i\<close>. The result is the
  row and the locals \<open>p\<close>, \<open>char2p\<close>, \<open>D\<close>, \<open>x\<close>.
\<close>

definition band_start ::
  "'a \<Rightarrow> 'a list \<Rightarrow> nat \<Rightarrow> nat \<Rightarrow> nat \<Rightarrow> nat list \<Rightarrow> nat list \<times> nat \<times> nat \<times> nat \<times> nat" where
  "band_start char1 string2 len1 half i row =
     (if i \<ge> len1 - half then
        let offset = i - (len1 - half);
            c3 = row ! offset + (if char1 \<noteq> string2 ! offset then 1 else 0);
            x = row ! (offset + 1) + 1;
            D = x;
            x = (if x > c3 then c3 else x)
        in (row[offset + 1 := x], offset + 2, offset + 1, D, x)
      else (row, 1, 0, i, i))"

text \<open>
  The \<^verbatim>\<open>/* lower triangle sentinel */\<close>: one more cell, from the diagonal and the left
  neighbour only.
\<close>

fun band_sentinel :: "'a \<Rightarrow> 'a list \<Rightarrow> nat list \<times> nat \<times> nat \<times> nat \<times> nat \<Rightarrow> nat list" where
  "band_sentinel char1 string2 (row, p, char2p, D, x) =
     (let c3 = (D - 1) + (if char1 \<noteq> string2 ! char2p then 1 else 0);
          x1 = x + 1;
          x2 = (if x1 > c3 then c3 else x1)
      in row[p := x2])"

text \<open>
  One iteration of \<^verbatim>\<open>for (i = 1; i < len1; i++)\<close>: the start, the new \<^verbatim>\<open>end\<close> (set while
  \<^verbatim>\<open>i <= half + 1\<close>), the main loop, and the sentinel while \<^verbatim>\<open>i <= half\<close>. It returns the
  row and \<^verbatim>\<open>end\<close>, which lives across iterations.
\<close>

definition band_row ::
  "'a list \<Rightarrow> 'a list \<Rightarrow> nat \<Rightarrow> nat \<Rightarrow> nat \<Rightarrow> nat \<Rightarrow> nat \<Rightarrow> nat list \<Rightarrow> nat list \<times> nat" where
  "band_row string1 string2 len1 len2 half i e row =
     (let char1 = string1 ! (i - 1);
          (row1, p, char2p, D, x) = band_start char1 string2 len1 half i row;
          e1 = (if i \<le> half + 1 then len2 + i - half - 2 else e);
          st = band_sweep char1 string2 e1 row1 p char2p D x
      in if i \<le> half then (band_sentinel char1 string2 st, e1) else (fst st, e1))"

function band_rows ::
  "'a list \<Rightarrow> 'a list \<Rightarrow> nat \<Rightarrow> nat \<Rightarrow> nat \<Rightarrow> nat \<Rightarrow> nat \<Rightarrow> nat list \<Rightarrow> nat list \<times> nat" where
  "band_rows string1 string2 len1 len2 half i e row =
     (if i < len1 then
        let (row', e') = band_row string1 string2 len1 len2 half i e row
        in band_rows string1 string2 len1 len2 half (i + 1) e' row'
      else (row, e))"
  by pat_completeness auto
termination
  by (relation "measure (\<lambda>(string1, string2, len1, len2, half, i, e, row). len1 - i)") auto

declare band_rows.simps [simp del]

subsection \<open>\<^verbatim>\<open>lev_edit_distance\<close> and \<^verbatim>\<open>lev_u_edit_distance\<close>\<close>

text \<open>
  The first row: \<^verbatim>\<open>for (i = 0; i < len2 - (xcost ? 0 : half); i++) row[i] = i;\<close> on the
  fresh block \<open>f\<close>; the other cells keep their indeterminate content.
\<close>

definition init_row :: "(nat \<Rightarrow> nat) \<Rightarrow> nat \<Rightarrow> nat \<Rightarrow> nat list" where
  "init_row f len2 n = map (\<lambda>k. if k < n then k else f k) [0..<len2]"

text \<open>
  Everything after the \<^verbatim>\<open>len1 == 1\<close> case, which is the same text in both functions but for
  the sweep of the \<^verbatim>\<open>xcost\<close> branch; \<open>len1\<close> and \<open>len2\<close> are incremented as in the source.
\<close>

definition distance_rows ::
  "('a list \<Rightarrow> 'a list \<Rightarrow> nat \<Rightarrow> nat \<Rightarrow> nat \<Rightarrow> nat list \<Rightarrow> nat list) \<Rightarrow>
   heap \<Rightarrow> 'a list \<Rightarrow> 'a list \<Rightarrow> bool \<Rightarrow> lev_error + nat" where
  "distance_rows xrows heap string1 string2 xcost =
     (let len1 = length string1 + 1;
          len2 = length string2 + 1;
          half = len1 div 2
      in case heap len2 of
           None \<Rightarrow> Inl NoMemory
         | Some f \<Rightarrow>
             let e = len2 - 1;
                 row = init_row f len2 (len2 - (if xcost then 0 else half))
             in if xcost then
                  Inr (xrows string1 string2 len1 e 1 row ! e)
                else
                  let row0 = row[0 := len1 - half - 1];
                      (row', e') = band_rows string1 string2 len1 len2 half 1 e row0
                  in Inr (row' ! e'))"

text \<open>
  The head of the function as in the source: strip, the trivial cases, the swap that makes
  \<open>string2\<close> the longer one, and the \<^verbatim>\<open>len1 == 1\<close> case, where \<^verbatim>\<open>memchr\<close> finds the single
  symbol in \<open>string2\<close> or not.
\<close>

definition lev_edit_distance :: "heap \<Rightarrow> lev_byte list \<Rightarrow> lev_byte list \<Rightarrow> bool \<Rightarrow> lev_error + nat" where
  "lev_edit_distance heap string1 string2 xcost =
     (let (s1, s2) = strip_common_prefix string1 string2;
          (s1, s2) = strip_common_suffix s1 s2
      in if length s1 = 0 then Inr (length s2)
         else if length s2 = 0 then Inr (length s1)
         else
           let (s1, s2) = (if length s1 > length s2 then (s2, s1) else (s1, s2));
               len2 = length s2
           in if length s1 = 1 then
                (if xcost then Inr (len2 + 1 - 2 * (if s1 ! 0 \<in> set s2 then 1 else 0))
                 else Inr (len2 - (if s1 ! 0 \<in> set s2 then 1 else 0)))
              else distance_rows xcost_rows heap s1 s2 xcost)"

text \<open>
  \<^verbatim>\<open>lev_u_edit_distance\<close> differs in the \<^verbatim>\<open>len1 == 1\<close> case, a loop that returns
  \<^verbatim>\<open>len2 - 1\<close> at the first occurrence of the symbol and \<^verbatim>\<open>len2 + (xcost != 0)\<close> after it.
\<close>

definition lev_u_edit_distance :: "heap \<Rightarrow> 'a list \<Rightarrow> 'a list \<Rightarrow> bool \<Rightarrow> lev_error + nat" where
  "lev_u_edit_distance heap string1 string2 xcost =
     (let (s1, s2) = strip_common_prefix string1 string2;
          (s1, s2) = strip_common_suffix s1 s2
      in if length s1 = 0 then Inr (length s2)
         else if length s2 = 0 then Inr (length s1)
         else
           let (s1, s2) = (if length s1 > length s2 then (s2, s1) else (s1, s2));
               len2 = length s2
           in if length s1 = 1 then
                (if s1 ! 0 \<in> set s2 then Inr (len2 - 1)
                 else Inr (len2 + (if xcost then 1 else 0)))
              else distance_rows u_xcost_rows heap s1 s2 xcost)"

section \<open>Edit operations\<close>

text \<open>
  \<^verbatim>\<open>LevEditType\<close> and \<^verbatim>\<open>LevEditOp\<close> are declared in the header; the constructors are the
  names the source uses, \<open>LEV_EDIT_LAST\<close> standing for every code that is not an operation.
  An array of operations with its length is a list. A \<^verbatim>\<open>size_t\<close> out-parameter that can
  hold the failure sentinel \<^verbatim>\<open>(size_t)(-1)\<close> is a \<open>size_out\<close>: no count or length of arguments
  that fit into memory equals the sentinel.
\<close>

datatype LevEditType =
  LEV_EDIT_KEEP | LEV_EDIT_REPLACE | LEV_EDIT_INSERT | LEV_EDIT_DELETE | LEV_EDIT_LAST

record LevEditOp =
  type :: LevEditType
  spos :: nat
  dpos :: nat

datatype size_out = Size nat | Size_Max

subsection \<open>\<^verbatim>\<open>lev_editops_find\<close>: the cost matrix\<close>

text \<open>
  The matrix is one block of \<open>len1 * len2\<close> cells. The two initialisation loops write row 0
  and column 0; the other cells keep the content \<open>f\<close> of the fresh block until the sweep
  writes them.
\<close>

definition init_matrix :: "(nat \<Rightarrow> nat) \<Rightarrow> nat \<Rightarrow> nat \<Rightarrow> nat list" where
  "init_matrix f len1 len2 =
     map (\<lambda>k. if k < len2 then k else if k mod len2 = 0 then k div len2 else f k)
       [0..<len1 * len2]"

text \<open>
  The inner loop of the fill; \<open>prev\<close>, \<open>p\<close> and \<open>e\<close> are offsets into the matrix, \<open>char2p\<close> into
  \<open>string2\<close>.
\<close>

function matrix_sweep ::
  "'a \<Rightarrow> 'a list \<Rightarrow> nat \<Rightarrow> nat list \<Rightarrow> nat \<Rightarrow> nat \<Rightarrow> nat \<Rightarrow> nat \<Rightarrow> nat list" where
  "matrix_sweep char1 string2 e matrix prev p char2p x =
     (if p \<le> e then
        let c3 = matrix ! prev + (if char1 \<noteq> string2 ! char2p then 1 else 0);
            x1 = x + 1;
            x2 = (if x1 > c3 then c3 else x1);
            c3' = matrix ! (prev + 1) + 1;
            x3 = (if x2 > c3' then c3' else x2)
        in matrix_sweep char1 string2 e (matrix[p := x3]) (prev + 1) (p + 1) (char2p + 1) x3
      else matrix)"
  by pat_completeness auto
termination
  by (relation "measure (\<lambda>(char1, string2, e, matrix, prev, p, char2p, x). e + 1 - p)") auto

declare matrix_sweep.simps [simp del]

function matrix_rows :: "'a list \<Rightarrow> 'a list \<Rightarrow> nat \<Rightarrow> nat \<Rightarrow> nat \<Rightarrow> nat list \<Rightarrow> nat list" where
  "matrix_rows string1 string2 len1 len2 i matrix =
     (if i < len1 then
        matrix_rows string1 string2 len1 len2 (i + 1)
          (matrix_sweep (string1 ! (i - 1)) string2 (i * len2 + len2 - 1) matrix
             ((i - 1) * len2) (i * len2 + 1) 0 i)
      else matrix)"
  by pat_completeness auto
termination
  by (relation "measure (\<lambda>(string1, string2, len1, len2, i, matrix). len1 - i)") auto

declare matrix_rows.simps [simp del]

subsection \<open>\<^verbatim>\<open>editops_from_cost_matrix\<close>: the way back\<close>

text \<open>
  The loop \<^verbatim>\<open>while (i || j)\<close>. The cells \<open>ops[pos..n)\<close> written so far are the list \<open>ops\<close>;
  \<^verbatim>\<open>pos--\<close> at \<open>pos = 0\<close> would write before the array. When the loop ends with \<open>pos > 0\<close>
  the first \<open>pos\<close> cells of the returned array were never written, which the model reports.
  The branches follow the source's order; each ends in \<^verbatim>\<open>continue\<close>.
\<close>

function find_way_back ::
  "'a list \<Rightarrow> 'a list \<Rightarrow> nat \<Rightarrow> nat \<Rightarrow> nat list \<Rightarrow> nat \<Rightarrow>
   nat \<Rightarrow> nat \<Rightarrow> nat \<Rightarrow> nat \<Rightarrow> int \<Rightarrow> LevEditOp list \<Rightarrow> lev_error + LevEditOp list" where
  "find_way_back string1 string2 off1 off2 matrix len2 i j p pos dir ops =
     (if i \<noteq> 0 \<or> j \<noteq> 0 then
        if dir < 0 \<and> j \<noteq> 0 \<and> matrix ! p = matrix ! (p - 1) + 1 then
          (if pos = 0 then Inl OutOfBounds
           else find_way_back string1 string2 off1 off2 matrix len2 i (j - 1) (p - 1) (pos - 1) dir
                  (\<lparr>type = LEV_EDIT_INSERT, spos = i + off1, dpos = (j - 1) + off2\<rparr> # ops))
        else if dir > 0 \<and> i \<noteq> 0 \<and> matrix ! p = matrix ! (p - len2) + 1 then
          (if pos = 0 then Inl OutOfBounds
           else find_way_back string1 string2 off1 off2 matrix len2 (i - 1) j (p - len2) (pos - 1) dir
                  (\<lparr>type = LEV_EDIT_DELETE, spos = (i - 1) + off1, dpos = j + off2\<rparr> # ops))
        else if i \<noteq> 0 \<and> j \<noteq> 0 \<and> matrix ! p = matrix ! (p - len2 - 1)
                \<and> string1 ! (i - 1) = string2 ! (j - 1) then
          find_way_back string1 string2 off1 off2 matrix len2 (i - 1) (j - 1) (p - (len2 + 1)) pos 0 ops
        else if i \<noteq> 0 \<and> j \<noteq> 0 \<and> matrix ! p = matrix ! (p - len2 - 1) + 1 then
          (if pos = 0 then Inl OutOfBounds
           else find_way_back string1 string2 off1 off2 matrix len2 (i - 1) (j - 1) (p - (len2 + 1))
                  (pos - 1) 0
                  (\<lparr>type = LEV_EDIT_REPLACE, spos = (i - 1) + off1, dpos = (j - 1) + off2\<rparr> # ops))
        else if dir = 0 \<and> j \<noteq> 0 \<and> matrix ! p = matrix ! (p - 1) + 1 then
          (if pos = 0 then Inl OutOfBounds
           else find_way_back string1 string2 off1 off2 matrix len2 i (j - 1) (p - 1) (pos - 1) (- 1)
                  (\<lparr>type = LEV_EDIT_INSERT, spos = i + off1, dpos = (j - 1) + off2\<rparr> # ops))
        else if dir = 0 \<and> i \<noteq> 0 \<and> matrix ! p = matrix ! (p - len2) + 1 then
          (if pos = 0 then Inl OutOfBounds
           else find_way_back string1 string2 off1 off2 matrix len2 (i - 1) j (p - len2) (pos - 1) 1
                  (\<lparr>type = LEV_EDIT_DELETE, spos = (i - 1) + off1, dpos = j + off2\<rparr> # ops))
        else Inl AssertionFailed
      else if pos = 0 then Inr ops else Inl Uninitialised)"
  by pat_completeness auto
termination
  by (relation "measure (\<lambda>(string1, string2, off1, off2, matrix, len2, i, j, p, pos, dir, ops). i + j)")
     auto

declare find_way_back.simps [simp del]

text \<open>
  \<open>len1\<close> and \<open>len2\<close> are the incremented lengths. The result is the returned pointer
  (\<open>None\<close> is \<^verbatim>\<open>NULL\<close>) and the out-parameter \<^verbatim>\<open>*n\<close>.
\<close>

definition editops_from_cost_matrix ::
  "heap \<Rightarrow> nat \<Rightarrow> 'a list \<Rightarrow> nat \<Rightarrow> nat \<Rightarrow> 'a list \<Rightarrow> nat \<Rightarrow> nat list \<Rightarrow>
   lev_error + (LevEditOp list option \<times> size_out)" where
  "editops_from_cost_matrix heap len1 string1 off1 len2 string2 off2 matrix =
     (let n = matrix ! (len1 * len2 - 1) in
      if n = 0 then Inr (None, Size 0)
      else case heap n of
        None \<Rightarrow> Inr (None, Size_Max)
      | Some f \<Rightarrow>
          (case find_way_back string1 string2 off1 off2 matrix len2
                  (len1 - 1) (len2 - 1) (len1 * len2 - 1) n 0 [] of
             Inl err \<Rightarrow> Inl err
           | Inr ops \<Rightarrow> Inr (Some ops, Size n)))"

definition lev_editops_find ::
  "heap \<Rightarrow> lev_byte list \<Rightarrow> lev_byte list \<Rightarrow> lev_error + (LevEditOp list option \<times> size_out)" where
  "lev_editops_find heap string1 string2 =
     (let (s1, s2) = strip_common_prefix string1 string2;
          len1o = length string1 - length s1;
          len2o = len1o;
          (s1, s2) = strip_common_suffix s1 s2;
          len1 = length s1 + 1;
          len2 = length s2 + 1
      in case heap (len1 * len2) of
           None \<Rightarrow> Inr (None, Size_Max)
         | Some f \<Rightarrow>
             editops_from_cost_matrix heap len1 s1 len1o len2 s2 len2o
               (matrix_rows s1 s2 len1 len2 1 (init_matrix f len1 len2)))"

subsection \<open>\<^verbatim>\<open>lev_editops_apply\<close>\<close>

text \<open>
  The loop over the operations. \<open>sp\<close> is the offset of the source pointer \<^verbatim>\<open>spos\<close>, \<open>dst\<close> the
  bytes written so far and \<open>cap\<close> the size of the destination block. The source computes
  \<^verbatim>\<open>j = ops->spos - (spos - string1) + (ops->type == LEV_EDIT_KEEP)\<close> in \<^verbatim>\<open>size_t\<close>: when the
  operation lies behind the source pointer the value wraps and \<^verbatim>\<open>memcpy\<close> leaves the
  strings. Every copy and every read of \<open>string2\<close> is checked against the lengths.
\<close>

fun apply_ops ::
  "nat \<Rightarrow> 'a list \<Rightarrow> 'a list \<Rightarrow> LevEditOp list \<Rightarrow> nat \<Rightarrow> 'a list \<Rightarrow> lev_error + (nat \<times> 'a list)" where
  "apply_ops cap string1 string2 [] sp dst = Inr (sp, dst)"
| "apply_ops cap string1 string2 (op # ops) sp dst =
     (let t = spos op + (if type op = LEV_EDIT_KEEP then 1 else 0) in
      if t < sp then Inl OutOfBounds
      else
        let j = t - sp in
        if sp + j > length string1 \<or> length dst + j > cap then Inl OutOfBounds
        else
          let dst1 = dst @ take j (drop sp string1);
              sp1 = sp + j
          in case type op of
               LEV_EDIT_DELETE \<Rightarrow> apply_ops cap string1 string2 ops (sp1 + 1) dst1
             | LEV_EDIT_REPLACE \<Rightarrow>
                 (if dpos op \<ge> length string2 \<or> length dst1 + 1 > cap then Inl OutOfBounds
                  else apply_ops cap string1 string2 ops (sp1 + 1) (dst1 @ [string2 ! dpos op]))
             | LEV_EDIT_INSERT \<Rightarrow>
                 (if dpos op \<ge> length string2 \<or> length dst1 + 1 > cap then Inl OutOfBounds
                  else apply_ops cap string1 string2 ops sp1 (dst1 @ [string2 ! dpos op]))
             | _ \<Rightarrow> apply_ops cap string1 string2 ops sp1 dst1)"

text \<open>
  The whole function: the block of \<open>n + len1\<close> bytes, the loop, the copy of the rest of the
  source, and \<^verbatim>\<open>realloc\<close> to the final length. The result is the returned pointer and
  \<^verbatim>\<open>*len\<close>: the source returns what \<^verbatim>\<open>realloc(dst, *len)\<close> returns, and its comment reads
  \<^verbatim>\<open>/* possible realloc failure is detected with *len != 0 */\<close>, so that \<^verbatim>\<open>NULL\<close> with
  \<^verbatim>\<open>*len == 0\<close> is the empty string.
\<close>

definition lev_editops_apply ::
  "heap \<Rightarrow> (nat \<Rightarrow> bool) \<Rightarrow> 'a list \<Rightarrow> 'a list \<Rightarrow> LevEditOp list \<Rightarrow>
   lev_error + ('a list option \<times> size_out)" where
  "lev_editops_apply heap realloc string1 string2 ops =
     (let cap = length ops + length string1 in
      case heap cap of
        None \<Rightarrow> Inr (None, Size_Max)
      | Some f \<Rightarrow>
          (case apply_ops cap string1 string2 ops 0 [] of
             Inl err \<Rightarrow> Inl err
           | Inr (sp, dst) \<Rightarrow>
               if sp > length string1 \<or> length dst + (length string1 - sp) > cap
               then Inl OutOfBounds
               else
                 let dst' = dst @ drop sp string1 in
                 if realloc (length dst') then Inr (Some dst', Size (length dst'))
                 else Inr (None, Size (length dst'))))"

text \<open>The string behind a returned pointer; \<^verbatim>\<open>NULL\<close> with \<^verbatim>\<open>*len == 0\<close> is the empty string.\<close>

fun bytes_array :: "'a list option \<Rightarrow> 'a list" where
  "bytes_array None = []"
| "bytes_array (Some dst) = dst"

text \<open>The operations behind a returned pointer; \<^verbatim>\<open>NULL\<close> with \<^verbatim>\<open>*n == 0\<close> is the empty array.\<close>

fun ops_array :: "LevEditOp list option \<Rightarrow> LevEditOp list" where
  "ops_array None = []"
| "ops_array (Some ops) = ops"

section \<open>The quick (voting) median\<close>


text \<open>
  \<^verbatim>\<open>make_symlistset\<close> marks the symbols that occur in the strings and returns them in the
  order of the scan \<^verbatim>\<open>for (j = 0; j < 0x100; j++)\<close>; an empty set is \<^verbatim>\<open>NULL\<close> with
  \<^verbatim>\<open>*symlistlen == 0\<close>.
\<close>

definition symlist_of :: "lev_byte list list \<Rightarrow> lev_byte list" where
  "symlist_of strings = filter (\<lambda>c. c \<in> set (concat strings)) (map char_of [0..<256::nat])"

text \<open>
  The first loop of \<^verbatim>\<open>lev_quick_median\<close>: \<^verbatim>\<open>ml += (double)lengths[i] * weights[i]\<close> and
  \<^verbatim>\<open>wl += weights[i]\<close>, from \<open>0.0\<close> and \<open>0.0\<close>.
\<close>

fun weight_sums ::
  "(real \<Rightarrow> real) \<Rightarrow> lev_byte list list \<Rightarrow> real list \<Rightarrow> real \<times> real \<Rightarrow> real \<times> real" where
  "weight_sums rnd (stri # strings) (weighti # weights) (ml, wl) =
     weight_sums rnd strings weights
       (rnd (ml + rnd (rnd (real (length stri)) * weighti)), rnd (wl + weighti))"
| "weight_sums rnd strings weights (ml, wl) = (ml, wl)"

text \<open>
  One string votes for position \<open>j\<close> of the median: the body of
  \<^verbatim>\<open>for (i = 0; i < n; i++)\<close> under \<^verbatim>\<open>/* let all strings vote */\<close>. The conversions of
  \<^verbatim>\<open>floor(start)\<close> and \<^verbatim>\<open>ceil(end)\<close> to \<^verbatim>\<open>size_t\<close> are undefined outside its range of 64 bits.
  The reads \<^verbatim>\<open>stri[istart]\<close> and \<^verbatim>\<open>stri[iend-1]\<close> are checked against the length of the string;
  \<^verbatim>\<open>iend - 1\<close> wraps for \<open>iend = 0\<close>.
\<close>

definition vote ::
  "(real \<Rightarrow> real) \<Rightarrow> (lev_byte \<Rightarrow> real) \<Rightarrow> lev_byte list \<Rightarrow> real \<Rightarrow> real \<Rightarrow> nat \<Rightarrow>
   lev_error + (lev_byte \<Rightarrow> real)" where
  "vote rnd symset stri weighti ml j =
     (let lengthi = length stri;
          start = rnd (rnd (rnd (real lengthi) / ml) * rnd (real j));
          end' = rnd (start + rnd (rnd (real lengthi) / ml))
      in if start < 0 \<or> 2 ^ 64 \<le> start \<or> end' < 0 \<or> 2 ^ 64 \<le> \<lceil>end'\<rceil> then Inl OutOfBounds
         else
           let istart = nat \<lfloor>start\<rfloor>;
               iend0 = nat \<lceil>end'\<rceil>;
               iend = (if iend0 > lengthi then lengthi else iend0);
               symset1 = fold (\<lambda>k s. s(stri ! k := rnd (s (stri ! k) + weighti)))
                           [istart + 1 ..< iend] symset
           in if istart \<ge> lengthi \<or> iend = 0 then Inl OutOfBounds
              else
                let symset2 = symset1(stri ! istart :=
                       rnd (symset1 (stri ! istart)
                            + rnd (weighti * rnd (rnd (real (1 + istart)) - start))));
                    symset3 = symset2(stri ! (iend - 1) :=
                       rnd (symset2 (stri ! (iend - 1))
                            - rnd (weighti * rnd (rnd (real iend) - end'))))
                in Inr symset3)"

fun votes ::
  "(real \<Rightarrow> real) \<Rightarrow> (lev_byte \<Rightarrow> real) \<Rightarrow> lev_byte list list \<Rightarrow> real list \<Rightarrow> real \<Rightarrow> nat \<Rightarrow>
   lev_error + (lev_byte \<Rightarrow> real)" where
  "votes rnd symset (stri # strings) (weighti # weights) ml j =
     (case vote rnd symset stri weighti ml j of
        Inl err \<Rightarrow> Inl err
      | Inr symset' \<Rightarrow> votes rnd symset' strings weights ml j)"
| "votes rnd symset strings weights ml j = Inr symset"

text \<open>\<^verbatim>\<open>/* find the elected symbol */\<close>: the first symbol of the list with the highest score.\<close>

definition elect :: "lev_byte list \<Rightarrow> (lev_byte \<Rightarrow> real) \<Rightarrow> lev_byte" where
  "elect symlist symset =
     fold (\<lambda>c k. if symset c > symset k then c else k) (tl symlist) (hd symlist)"

text \<open>
  \<^verbatim>\<open>for (j = 0; j < len; j++)\<close>: the scores are cleared, the strings vote, and the elected
  symbol is stored in \<^verbatim>\<open>median[j]\<close>; \<open>median\<close> is the part of the array written so far.
\<close>

function quick_median_symbols ::
  "(real \<Rightarrow> real) \<Rightarrow> lev_byte list \<Rightarrow> lev_byte list list \<Rightarrow> real list \<Rightarrow> real \<Rightarrow> nat \<Rightarrow> nat \<Rightarrow>
   lev_byte list \<Rightarrow> lev_error + lev_byte list" where
  "quick_median_symbols rnd symlist strings weights ml len j median =
     (if j < len then
        case votes rnd (\<lambda>c. 0) strings weights ml j of
          Inl err \<Rightarrow> Inl err
        | Inr symset \<Rightarrow>
            quick_median_symbols rnd symlist strings weights ml len (j + 1)
              (median @ [elect symlist symset])
      else Inr median)"
  by pat_completeness auto
termination
  by (relation "measure (\<lambda>(rnd, symlist, strings, weights, ml, len, j, median). len - j)") auto

declare quick_median_symbols.simps [simp del]

text \<open>
  \<^verbatim>\<open>lev_quick_median\<close>. The strings carry their lengths; \<open>strings\<close> and \<open>weights\<close> have \<open>n\<close>
  elements each. \<open>medlength\<close> is the content of \<^verbatim>\<open>*medlength\<close> at the call; the result is the
  returned pointer (\<open>None\<close> is \<^verbatim>\<open>NULL\<close>) and the content of \<^verbatim>\<open>*medlength\<close> at the return. The
  conversion \<^verbatim>\<open>(size_t)ml\<close> of a value outside the range of \<^verbatim>\<open>size_t\<close> is undefined in C.
\<close>

definition lev_quick_median ::
  "(real \<Rightarrow> real) \<Rightarrow> heap \<Rightarrow> lev_byte list list \<Rightarrow> real list \<Rightarrow> nat \<Rightarrow>
   (lev_error + lev_byte list option) \<times> nat" where
  "lev_quick_median rnd heap strings weights medlength =
     (case weight_sums rnd strings weights (0, 0) of
        (ml, wl) \<Rightarrow>
          if wl = 0 then (Inr (map_option (\<lambda>f. []) (heap 1)), medlength)
          else
            let ml' = \<lfloor>rnd (rnd (ml / wl) + rnd 0.499999)\<rfloor> in
            if ml' < 0 \<or> 2 ^ 64 \<le> ml' then (Inl OutOfBounds, medlength)
            else
              let len = nat ml' in
              if len = 0 then (Inr (map_option (\<lambda>f. []) (heap 1)), len)
              else if heap len = None then (Inr None, len)
              else if heap 256 = None then (Inr None, len)
              else
                let symlist = symlist_of strings in
                if symlist = [] \<or> heap (length symlist) = None then (Inr None, len)
                else
                  (case quick_median_symbols rnd symlist strings weights (real_of_int ml') len 0 []
                   of Inl err \<Rightarrow> (Inl err, len)
                    | Inr median \<Rightarrow> (Inr (Some median), len)))"



section \<open>The set median\<close>

text \<open>
  \<^verbatim>\<open>lev_set_median_index\<close>. The array \<open>distances\<close> of \<open>n (n - 1) / 2\<close> \<^verbatim>\<open>long int\<close> cells is
  filled with \<open>-1\<close> by \<^verbatim>\<open>memset(distances, 0xff, ...)\<close>. The index of a pair is
  \<^verbatim>\<open>(i - 1)*(i - 2)/2 + j\<close>; for \<open>i = 1\<close> the \<^verbatim>\<open>size_t\<close> product \<open>0 * (2\<^sup>6\<^sup>4 - 1)\<close> is \<open>0\<close>, as
  is the product of the truncated differences here. The weights and the sums are reals;
  \<open>strings\<close> and \<open>weights\<close> have \<open>n\<close> elements each. A distance that is the failure value of
  \<^verbatim>\<open>lev_edit_distance\<close> is negative as a \<^verbatim>\<open>long int\<close> and makes the function return
  \<^verbatim>\<open>(size_t)-1\<close>.
\<close>

text \<open>\<^verbatim>\<open>/* below diagonal */\<close>: the loop leaves \<open>j\<close> and the sum \<^verbatim>\<open>dist\<close>, here \<open>distsum\<close>.\<close>

function below_diagonal ::
  "heap \<Rightarrow> lev_byte list list \<Rightarrow> real list \<Rightarrow> int list \<Rightarrow> nat \<Rightarrow> real \<Rightarrow> nat \<Rightarrow> real \<Rightarrow>
   lev_error + (nat \<times> real)" where
  "below_diagonal heap strings weights distances i mindist j distsum =
     (if j < i \<and> distsum < mindist then
        let dindex = (i - 1) * (i - 2) div 2 + j in
        if dindex \<ge> length distances then Inl OutOfBounds
        else if distances ! dindex \<ge> 0 then
          below_diagonal heap strings weights distances i mindist (j + 1)
            (distsum + weights ! j * real_of_int (distances ! dindex))
        else
          (case lev_edit_distance heap (strings ! j) (strings ! i) False of
             Inl err \<Rightarrow> Inl err
           | Inr d \<Rightarrow>
               below_diagonal heap strings weights distances i mindist (j + 1)
                 (distsum + weights ! j * real d))
      else Inr (j, distsum))"
  by pat_completeness auto
termination
  by (relation "measure (\<lambda>(heap, strings, weights, distances, i, mindist, j, distsum). i - j)") auto

declare below_diagonal.simps [simp del]

text \<open>\<^verbatim>\<open>/* above diagonal */\<close>: every distance computed is stored.\<close>

function above_diagonal ::
  "heap \<Rightarrow> lev_byte list list \<Rightarrow> real list \<Rightarrow> int list \<Rightarrow> nat \<Rightarrow> real \<Rightarrow> nat \<Rightarrow> real \<Rightarrow>
   lev_error + (int list \<times> real)" where
  "above_diagonal heap strings weights distances i mindist j distsum =
     (if j < length strings \<and> distsum < mindist then
        let dindex = (j - 1) * (j - 2) div 2 + i in
        if dindex \<ge> length distances then Inl OutOfBounds
        else
          (case lev_edit_distance heap (strings ! j) (strings ! i) False of
             Inl err \<Rightarrow> Inl err
           | Inr d \<Rightarrow>
               above_diagonal heap strings weights (distances[dindex := int d]) i mindist (j + 1)
                 (distsum + weights ! j * real d))
      else Inr (distances, distsum))"
  by pat_completeness auto
termination
  by (relation "measure (\<lambda>(heap, strings, weights, distances, i, mindist, j, distsum).
        length strings - j)") auto

declare above_diagonal.simps [simp del]

text \<open>\<^verbatim>\<open>for (i = 0; i < n; i++)\<close>: the candidates in turn.\<close>

function set_median_candidates ::
  "heap \<Rightarrow> lev_byte list list \<Rightarrow> real list \<Rightarrow> int list \<Rightarrow> nat \<Rightarrow> real \<Rightarrow> nat \<Rightarrow> lev_error + nat" where
  "set_median_candidates heap strings weights distances i mindist minidx =
     (if i < length strings then
        case below_diagonal heap strings weights distances i mindist 0 0 of
          Inl err \<Rightarrow> Inl err
        | Inr (j, distsum) \<Rightarrow>
            (case above_diagonal heap strings weights distances i mindist (j + 1) distsum of
               Inl err \<Rightarrow> Inl err
             | Inr (distances', distsum') \<Rightarrow>
                 if distsum' < mindist then
                   set_median_candidates heap strings weights distances' (i + 1) distsum' i
                 else
                   set_median_candidates heap strings weights distances' (i + 1) mindist minidx)
      else Inr minidx)"
  by pat_completeness auto
termination
  by (relation "measure (\<lambda>(heap, strings, weights, distances, i, mindist, minidx).
        length strings - i)") auto

declare set_median_candidates.simps [simp del]

definition LEV_INFINITY :: real where
  "LEV_INFINITY = 10 ^ 100"

definition lev_set_median_index :: "heap \<Rightarrow> lev_byte list list \<Rightarrow> real list \<Rightarrow> lev_error + size_out" where
  "lev_set_median_index heap strings weights =
     (let n = length strings in
      case heap (n * (n - 1) div 2) of
        None \<Rightarrow> Inr Size_Max
      | Some block \<Rightarrow>
          (case set_median_candidates heap strings weights
                  (replicate (n * (n - 1) div 2) (- 1)) 0 LEV_INFINITY 0 of
             Inl err \<Rightarrow> if err = NoMemory then Inr Size_Max else Inl err
           | Inr minidx \<Rightarrow> Inr (Size minidx)))"

text \<open>
  The quantity of the specification: the weighted sum of the unit-cost distances from string
  \<open>i\<close> to all strings of the set.
\<close>

definition set_median_sum :: "lev_byte list list \<Rightarrow> real list \<Rightarrow> nat \<Rightarrow> real" where
  "set_median_sum strings weights i =
     sum_list (map2 (\<lambda>s w. w * real (lev 1 (strings ! i) s)) strings weights)"

section \<open>The greedy median\<close>

text \<open>
  \<^verbatim>\<open>make_symlist\<close>: the symbols of the strings in the order of the scan over all 256 byte
  values, with \<^verbatim>\<open>*symlistlen\<close>; \<^verbatim>\<open>NULL\<close> with length 0 when there is no symbol, and \<^verbatim>\<open>NULL\<close>
  with \<^verbatim>\<open>(size_t)(-1)\<close> when an allocation fails.
\<close>

definition make_symlist :: "heap \<Rightarrow> lev_byte list list \<Rightarrow> lev_byte list option \<times> size_out" where
  "make_symlist heap strings =
     (if heap 256 = None then (None, Size_Max)
      else
        let symlist = symlist_of strings in
        if symlist = [] then (None, Size 0)
        else if heap (length symlist) = None then (None, Size_Max)
        else (Some symlist, Size (length symlist)))"

text \<open>
  The \<^verbatim>\<open>while (p < end)\<close> loop: how the next row of the matrix of string \<open>i\<close> would look
  with \<open>symbol\<close> added to the median. \<open>ri\<close> is \<^verbatim>\<open>rows[i]\<close>, \<open>k\<close> the offset of \<^verbatim>\<open>p\<close> in it, \<open>x\<close>
  the last cell of the new row and \<open>xmin\<close> the variable \<^verbatim>\<open>min\<close>.
\<close>

function next_row_scan ::
  "lev_byte \<Rightarrow> lev_byte list \<Rightarrow> nat list \<Rightarrow> nat \<Rightarrow> nat \<Rightarrow> nat \<Rightarrow> lev_error + nat \<times> nat" where
  "next_row_scan symbol stri ri k x xmin =
     (if k < length stri then
        if k + 1 \<ge> length ri then Inl OutOfBounds
        else
          let D = ri ! k + (if symbol \<noteq> stri ! k then 1 else 0);
              x1 = x + 1;
              x2 = (if x1 > D then D else x1);
              x3 = (if x2 > ri ! (k + 1) + 1 then ri ! (k + 1) + 1 else x2);
              xmin' = (if x3 < xmin then x3 else xmin)
          in next_row_scan symbol stri ri (k + 1) x3 xmin'
      else Inr (x, xmin))"
  by pat_completeness auto
termination
  by (relation "measure (\<lambda>(symbol, stri, ri, k, x, xmin). length stri - k)") auto

declare next_row_scan.simps [simp del]

text \<open>
  \<^verbatim>\<open>/* sum Levenshtein distances from all the strings, with given weights */\<close>: the loop
  over the strings for one symbol.
\<close>

fun symbol_sums ::
  "lev_byte \<Rightarrow> nat \<Rightarrow> lev_byte list list \<Rightarrow> real list \<Rightarrow> nat list list \<Rightarrow> real \<Rightarrow> real \<Rightarrow>
   lev_error + real \<times> real" where
  "symbol_sums symbol len (stri # strings) (weighti # weights) (ri # rows) minsum totaldist =
     (case next_row_scan symbol stri ri 0 len len of
        Inl err \<Rightarrow> Inl err
      | Inr (x, xmin) \<Rightarrow>
          symbol_sums symbol len strings weights rows
            (minsum + real xmin * weighti) (totaldist + real x * weighti))"
| "symbol_sums symbol len strings weights rows minsum totaldist = Inr (minsum, totaldist)"

text \<open>
  \<^verbatim>\<open>/* iterate over all symbols we may want to add */\<close>: a symbol whose \<open>minsum\<close> is below
  \<open>minminsum\<close> is written to \<^verbatim>\<open>median[len - 1]\<close>, and its total distance to
  \<^verbatim>\<open>mediandist[len]\<close>.
\<close>

fun try_symbols ::
  "lev_byte list \<Rightarrow> nat \<Rightarrow> lev_byte list list \<Rightarrow> real list \<Rightarrow> nat list list \<Rightarrow> real \<Rightarrow>
   real list \<Rightarrow> lev_byte list \<Rightarrow> lev_error + real list \<times> lev_byte list" where
  "try_symbols [] len strings weights rows minminsum mediandist median = Inr (mediandist, median)"
| "try_symbols (symbol # symlist) len strings weights rows minminsum mediandist median =
     (case symbol_sums symbol len strings weights rows 0 0 of
        Inl err \<Rightarrow> Inl err
      | Inr (minsum, totaldist) \<Rightarrow>
          if minsum < minminsum then
            if len \<ge> length mediandist \<or> len - 1 \<ge> length median then Inl OutOfBounds
            else
              try_symbols symlist len strings weights rows minsum
                (mediandist[len := totaldist]) (median[len - 1 := symbol])
          else try_symbols symlist len strings weights rows minminsum mediandist median)"

text \<open>
  \<^verbatim>\<open>/* compute a row of Levenshtein matrix */\<close> into the scratch buffer \<open>row\<close>, and the loop
  over the strings around it, which copies the first \<open>leni + 1\<close> cells of the buffer back.
\<close>

function compute_row ::
  "lev_byte \<Rightarrow> lev_byte list \<Rightarrow> nat list \<Rightarrow> nat \<Rightarrow> nat list \<Rightarrow> lev_error + nat list" where
  "compute_row symbol stri oldrow k row =
     (if k \<le> length stri then
        if k \<ge> length oldrow \<or> k \<ge> length row then Inl OutOfBounds
        else
          let c1 = oldrow ! k + 1;
              c2 = row ! (k - 1) + 1;
              c3 = oldrow ! (k - 1) + (if symbol \<noteq> stri ! (k - 1) then 1 else 0);
              r = (if c2 > c3 then c3 else c2);
              r' = (if r > c1 then c1 else r)
          in compute_row symbol stri oldrow (k + 1) (row[k := r'])
      else Inr row)"
  by pat_completeness auto
termination
  by (relation "measure (\<lambda>(symbol, stri, oldrow, k, row). Suc (length stri) - k)") auto

declare compute_row.simps [simp del]

fun recompute_rows ::
  "lev_byte \<Rightarrow> lev_byte list list \<Rightarrow> nat list list \<Rightarrow> nat list \<Rightarrow>
   lev_error + nat list list \<times> nat list" where
  "recompute_rows symbol (stri # strings) (oldrow # rows) row =
     (case compute_row symbol stri oldrow 1 row of
        Inl err \<Rightarrow> Inl err
      | Inr row' \<Rightarrow>
          if length stri + 1 > length row' \<or> length stri + 1 > length oldrow then Inl OutOfBounds
          else
            (case recompute_rows symbol strings rows row' of
               Inl err \<Rightarrow> Inl err
             | Inr (rows', row'') \<Rightarrow>
                 Inr ((take (length stri + 1) row' @ drop (length stri + 1) oldrow) # rows', row'')))"
| "recompute_rows symbol strings rows row = Inr ([], row)"

text \<open>
  \<^verbatim>\<open>for (len = 1; len <= stoplen; len++)\<close>: the median is built symbol by symbol. The loop
  is left at the \<^verbatim>\<open>break\<close> with \<^verbatim>\<open>stoplen = len\<close>; the result is the final \<open>stoplen\<close> with
  \<open>median\<close> and \<open>mediandist\<close>.
\<close>

function greedy_median_loop ::
  "lev_byte list \<Rightarrow> lev_byte list list \<Rightarrow> real list \<Rightarrow> nat \<Rightarrow> nat \<Rightarrow> nat \<Rightarrow> nat list list \<Rightarrow>
   nat list \<Rightarrow> lev_byte list \<Rightarrow> real list \<Rightarrow> lev_error + nat \<times> lev_byte list \<times> real list" where
  "greedy_median_loop symlist strings weights maxlen stoplen len rows row median mediandist =
     (if len \<le> stoplen then
        if length row = 0 then Inl OutOfBounds
        else
          (case try_symbols symlist len strings weights rows LEV_INFINITY mediandist median of
             Inl err \<Rightarrow> Inl err
           | Inr (mediandist', median') \<Rightarrow>
               if len \<ge> length mediandist' \<or> len - 1 \<ge> length median' then Inl OutOfBounds
               else if len = stoplen \<or>
                       (len > maxlen \<and> mediandist' ! len > mediandist' ! (len - 1))
               then Inr (len, median', mediandist')
               else
                 (case recompute_rows (median' ! (len - 1)) strings rows (row[0 := len]) of
                    Inl err \<Rightarrow> Inl err
                  | Inr (rows', row') \<Rightarrow>
                      greedy_median_loop symlist strings weights maxlen stoplen (len + 1)
                        rows' row' median' mediandist'))
      else Inr (stoplen, median, mediandist))"
  by pat_completeness auto
termination
  by (relation "measure (\<lambda>(symlist, strings, weights, maxlen, stoplen, len, rows, row, median,
        mediandist). Suc stoplen - len)") auto

declare greedy_median_loop.simps [simp del]

text \<open>
  \<^verbatim>\<open>lev_greedy_median\<close>. \<open>medlength\<close> is the content of \<^verbatim>\<open>*medlength\<close> at the call, and the
  result is the returned pointer with the content of \<^verbatim>\<open>*medlength\<close> at the return. The
  buffers \<open>row\<close>, \<open>median\<close> and \<open>mediandist\<close> start with the indeterminate content of their
  blocks; \<^verbatim>\<open>mediandist[0]\<close> is the sum for the empty string.
\<close>

definition lev_greedy_median ::
  "heap \<Rightarrow> lev_byte list list \<Rightarrow> real list \<Rightarrow> nat \<Rightarrow> (lev_error + lev_byte list option) \<times> nat" where
  "lev_greedy_median heap strings weights medlength =
     (case make_symlist heap strings of
        (None, symlistlen) \<Rightarrow>
          if symlistlen = Size 0 then (Inr (map_option (\<lambda>f. []) (heap 1)), 0) else (Inr None, 0)
      | (Some symlist, symlistlen) \<Rightarrow>
          if heap (length strings) = None then (Inr None, medlength)
          else if list_ex (\<lambda>stri. heap (length stri + 1) = None) strings then (Inr None, medlength)
          else
            let rows = map (\<lambda>stri. [0 ..< length stri + 1]) strings;
                maxlen = fold (\<lambda>stri maxlen. if length stri > maxlen then length stri else maxlen)
                           strings 0;
                stoplen = 2 * maxlen + 1
            in case heap (stoplen + 1) of
                 None \<Rightarrow> (Inr None, medlength)
               | Some cells \<Rightarrow>
                   (case heap stoplen of
                      None \<Rightarrow> (Inr None, medlength)
                    | Some symbols \<Rightarrow>
                        let row = map cells [0 ..< stoplen + 1];
                            median = map (\<lambda>k. char_of (symbols k)) [0 ..< stoplen];
                            mediandist = (map (\<lambda>k. real (cells k)) [0 ..< stoplen + 1])
                              [0 := sum_list (map2 (\<lambda>stri w. real (length stri) * w) strings weights)]
                        in case greedy_median_loop symlist strings weights maxlen stoplen 1
                                  rows row median mediandist of
                             Inl err \<Rightarrow> (Inl err, medlength)
                           | Inr (stoplen', median', mediandist') \<Rightarrow>
                               let bestlen = fold (\<lambda>len bestlen.
                                       if mediandist' ! len < mediandist' ! bestlen then len
                                       else bestlen) [1 ..< stoplen' + 1] 0
                               in if heap bestlen = None then (Inr None, medlength)
                                  else (Inr (Some (take bestlen median')), bestlen)))"

text \<open>
  The quantity of the specification: the weighted sum of the unit-cost distances from a
  string to the strings of the set.
\<close>

definition median_sum :: "lev_byte list \<Rightarrow> lev_byte list list \<Rightarrow> real list \<Rightarrow> real" where
  "median_sum m strings weights = sum_list (map2 (\<lambda>s w. w * real (lev 1 m s)) strings weights)"

section \<open>Correctness of the distance kernel\<close>

subsection \<open>The reference recurrence is the minimum over edit scripts\<close>

lemma lev_Nil2 [simp]: "lev sc xs [] = length xs"
  by (cases xs) auto

lemma lev_sym: "lev sc xs ys = lev sc ys xs"
  by (induction sc xs ys rule: lev.induct) (auto simp: min.commute min.left_commute)

lemma script_cost_Nil [simp]: "script_cost sc [] = 0"
  by (simp add: script_cost_def)

lemma script_cost_Cons [simp]: "script_cost sc (e # es) = edit_cost sc e + script_cost sc es"
  by (simp add: script_cost_def)

lemma script_cost_append [simp]: "script_cost sc (es @ fs) = script_cost sc es + script_cost sc fs"
  by (simp add: script_cost_def)

lemma script_cost_rev [simp]: "script_cost sc (rev es) = script_cost sc es"
  by (induction es) auto

lemma lev_achieved: "\<exists>es. transform es xs = Some ys \<and> script_cost sc es = lev sc xs ys"
proof (induction sc xs ys rule: lev.induct)
  case (1 sc ys)
  have "transform (map Ins ys) [] = Some ys \<and> script_cost sc (map Ins ys) = length ys"
    by (induction ys) auto
  then show ?case by auto
next
  case (2 sc x xs)
  have "transform (replicate n Del) (replicate n x @ []) = Some []" for n
    by (induction n) auto
  have "transform (map (\<lambda>_. Del) zs) zs = Some [] \<and> script_cost sc (map (\<lambda>_. Del) zs) = length zs" for zs :: "'a list"
    by (induction zs) auto
  from this[of "x # xs"] show ?case by (intro exI[of _ "map (\<lambda>_. Del) (x # xs)"]) simp
next
  case (3 sc x xs y ys)
  from 3 obtain e1 where e1: "transform e1 xs = Some (y # ys)" "script_cost sc e1 = lev sc xs (y # ys)" by blast
  from 3 obtain e2 where e2: "transform e2 (x # xs) = Some ys" "script_cost sc e2 = lev sc (x # xs) ys" by blast
  from 3 obtain e3 where e3: "transform e3 xs = Some ys" "script_cost sc e3 = lev sc xs ys" by blast
  let ?a = "Suc (lev sc xs (y # ys))" and ?b = "Suc (lev sc (x # xs) ys)"
    and ?c = "lev sc xs ys + (if x = y then 0 else sc)"
  have A: "transform (Del # e1) (x # xs) = Some (y # ys) \<and> script_cost sc (Del # e1) = ?a"
    using e1 by simp
  have B: "transform (Ins y # e2) (x # xs) = Some (y # ys) \<and> script_cost sc (Ins y # e2) = ?b"
    using e2 by simp
  have C: "transform ((if x = y then Copy else Subst y) # e3) (x # xs) = Some (y # ys)
      \<and> script_cost sc ((if x = y then Copy else Subst y) # e3) = ?c"
    using e3 by simp
  have "lev sc (x # xs) (y # ys) = ?a \<or> lev sc (x # xs) (y # ys) = ?b \<or> lev sc (x # xs) (y # ys) = ?c"
    by (simp add: min_def)
  then show ?case using A B C by metis
qed

lemma lev_lower: "transform es xs = Some ys \<Longrightarrow> lev sc xs ys \<le> script_cost sc es"
proof (induction es xs arbitrary: ys rule: transform.induct)
  case (3 c es xs)
  then obtain ys' where ys: "ys = c # ys'" "transform es xs = Some ys'" by auto
  with 3 have "lev sc xs ys' \<le> script_cost sc es" by simp
  moreover have "lev sc xs (c # ys') \<le> Suc (lev sc xs ys')"
    by (cases xs) (auto simp: min_def)
  ultimately show ?case using ys by simp
next
  case (5 es x xs)
  then obtain ys' where ys: "ys = x # ys'" "transform es xs = Some ys'" by auto
  with 5 have "lev sc xs ys' \<le> script_cost sc es" by simp
  then show ?case using ys by (simp add: min.coboundedI2)
next
  case (6 c es x xs)
  then obtain ys' where ys: "ys = c # ys'" "transform es xs = Some ys'" by auto
  with 6 have "lev sc xs ys' \<le> script_cost sc es" by simp
  then show ?case using ys by (auto simp add: min_def)
next
  case (7 es x xs)
  then have "lev sc xs ys \<le> script_cost sc es" by simp
  moreover have "lev sc (x # xs) ys \<le> Suc (lev sc xs ys)"
    by (cases ys) (auto simp: min_def)
  ultimately show ?case by simp
qed simp_all

lemma min_edit_cost_lev: "min_edit_cost sc a b (lev sc a b)"
  unfolding min_edit_cost_def using lev_achieved[of a b sc] lev_lower[of _ a b sc] by blast

lemma min_edit_cost_unique: "min_edit_cost sc a b d \<Longrightarrow> d = lev sc a b"
  unfolding min_edit_cost_def using lev_achieved[of a b sc] lev_lower[of _ a b sc]
  by (metis le_antisym)

lemma transform_append:
  "transform es xs = Some ys \<Longrightarrow> transform fs xs' = Some ys' \<Longrightarrow>
   transform (es @ fs) (xs @ xs') = Some (ys @ ys')"
proof (induction es xs arbitrary: ys rule: transform.induct)
  case (3 c es xs)
  then show ?case by auto
qed auto

lemma transform_rev:
  "transform es xs = Some ys \<Longrightarrow> transform (rev es) (rev xs) = Some (rev ys)"
proof (induction es xs arbitrary: ys rule: transform.induct)
  case (3 c es xs)
  then obtain ys' where ys: "ys = c # ys'" "transform es xs = Some ys'" by auto
  with 3 have "transform (rev es) (rev xs) = Some (rev ys')" by simp
  from transform_append[OF this, of "[Ins c]" "[]" "[c]"] show ?case using ys by simp
next
  case (5 es x xs)
  then obtain ys' where ys: "ys = x # ys'" "transform es xs = Some ys'" by auto
  with 5 have "transform (rev es) (rev xs) = Some (rev ys')" by simp
  from transform_append[OF this, of "[Copy]" "[x]" "[x]"] show ?case using ys by simp
next
  case (6 c es x xs)
  then obtain ys' where ys: "ys = c # ys'" "transform es xs = Some ys'" by auto
  with 6 have "transform (rev es) (rev xs) = Some (rev ys')" by simp
  from transform_append[OF this, of "[Subst c]" "[x]" "[c]"] show ?case using ys by simp
next
  case (7 es x xs)
  then have "transform (rev es) (rev xs) = Some (rev ys)" by simp
  from transform_append[OF this, of "[Del]" "[x]" "[]"] show ?case by simp
qed auto

lemma lev_rev_le: "lev sc (rev xs) (rev ys) \<le> lev sc xs ys"
proof -
  obtain es where "transform es xs = Some ys" "script_cost sc es = lev sc xs ys"
    using lev_achieved by blast
  then show ?thesis using lev_lower[OF transform_rev, of es xs ys sc] by simp
qed

lemma lev_rev: "lev sc (rev xs) (rev ys) = lev sc xs ys"
  using lev_rev_le[of sc xs ys] lev_rev_le[of sc "rev xs" "rev ys"] by simp


lemma lev_Cons1_le: "lev sc (x # xs) ys \<le> Suc (lev sc xs ys)"
  by (cases ys) (auto simp: min_def)

lemma lev_Cons2_le: "lev sc xs (y # ys) \<le> Suc (lev sc xs ys)"
  by (cases xs) (auto simp: min_def)

lemma lev_le_Cons1: "lev sc xs ys \<le> Suc (lev sc (x # xs) ys)"
proof (induction ys arbitrary: x xs)
  case Nil
  then show ?case by simp
next
  case (Cons y ys)
  have a: "lev sc xs (y # ys) \<le> Suc (lev sc xs ys)" by (rule lev_Cons2_le)
  have b: "lev sc xs ys \<le> Suc (lev sc (x # xs) ys)" by (rule Cons.IH)
  show ?case using a b by (simp add: min_def)
qed

lemma lev_le_Cons2: "lev sc xs ys \<le> Suc (lev sc xs (y # ys))"
  using lev_le_Cons1[of sc ys xs y] by (simp add: lev_sym)

lemma lev_Cons_same [simp]: "lev sc (x # xs) (x # ys) = lev sc xs ys"
  using lev_le_Cons1[of sc xs ys x] lev_le_Cons2[of sc xs ys x] by (simp add: min_def)

lemma lev_same_prefix [simp]: "lev sc (p @ xs) (p @ ys) = lev sc xs ys"
  by (induction p) (simp_all del: lev.simps(3))

lemma lev_same_suffix [simp]: "lev sc (xs @ q) (ys @ q) = lev sc xs ys"
  using lev_same_prefix[of sc "rev q" "rev xs" "rev ys"] lev_rev[of sc "xs @ q" "ys @ q"]
  by (simp add: lev_rev)

lemma lev_snoc_snoc:
  "lev sc (xs @ [x]) (ys @ [y]) =
     min (min (Suc (lev sc xs (ys @ [y]))) (Suc (lev sc (xs @ [x]) ys)))
         (lev sc xs ys + (if x = y then 0 else sc))"
proof -
  have "lev sc (xs @ [x]) (ys @ [y]) = lev sc (x # rev xs) (y # rev ys)"
    using lev_rev[of sc "xs @ [x]" "ys @ [y]"] by simp
  also have "\<dots> = min (min (Suc (lev sc (rev xs) (rev (ys @ [y])))) (Suc (lev sc (rev (xs @ [x])) (rev ys))))
         (lev sc (rev xs) (rev ys) + (if x = y then 0 else sc))"
    by simp
  finally show ?thesis by (simp only: lev_rev)
qed

lemma lev_single:
  "ys \<noteq> [] \<Longrightarrow> lev sc [x] ys = (if x \<in> set ys then length ys - 1 else length ys - 1 + min sc 2)"
proof (induction ys)
  case Nil
  then show ?case by simp
next
  case (Cons y ys)
  show ?case
  proof (cases "ys = []")
    case True
    then show ?thesis by (auto simp: min_def)
  next
    case False
    with Cons have IH: "lev sc [x] ys = (if x \<in> set ys then length ys - 1 else length ys - 1 + min sc 2)"
      by simp
    from False have l: "length ys > 0" by simp
    show ?thesis using IH l by (auto simp: min_def split: if_splits)
  qed
qed

lemma strip_common_prefix_spec:
  "strip_common_prefix xs ys = (xs', ys') \<Longrightarrow> \<exists>p. xs = p @ xs' \<and> ys = p @ ys'"
proof (induction xs ys rule: strip_common_prefix.induct)
  case (1 x xs y ys)
  show ?case
  proof (cases "x = y")
    case True
    with 1 obtain p where "xs = p @ xs'" "ys = p @ ys'" by auto
    with True have "x # xs = (x # p) @ xs' \<and> y # ys = (x # p) @ ys'" by simp
    then show ?thesis by blast
  next
    case False
    with 1 show ?thesis by auto
  qed
qed auto

lemma strip_common_suffix_spec:
  "strip_common_suffix xs ys = (xs', ys') \<Longrightarrow> \<exists>q. xs = xs' @ q \<and> ys = ys' @ q"
proof (induction xs ys rule: strip_common_suffix.induct)
  case (1 xs ys)
  show ?case
  proof (cases "xs \<noteq> [] \<and> ys \<noteq> [] \<and> last xs = last ys")
    case True
    with 1 have "strip_common_suffix (butlast xs) (butlast ys) = (xs', ys')"
      by (simp add: strip_common_suffix.simps[of xs ys])
    with 1 True obtain q where q: "butlast xs = xs' @ q" "butlast ys = ys' @ q" by blast
    from True have xne: "xs \<noteq> []" and yne: "ys \<noteq> []" and ll: "last ys = last xs" by simp_all
    have "xs = butlast xs @ [last xs]"
      using append_butlast_last_id[OF xne] by simp
    moreover have "ys = butlast ys @ [last xs]"
      using append_butlast_last_id[OF yne] unfolding ll by simp
    ultimately have "xs = (xs' @ q) @ [last xs]" "ys = (ys' @ q) @ [last xs]"
      using q by simp_all
    then have "xs = xs' @ (q @ [last xs]) \<and> ys = ys' @ (q @ [last xs])" by simp
    then show ?thesis by blast
  next
    case False
    with 1 show ?thesis by (auto simp: strip_common_suffix.simps[of xs ys])
  qed
qed

lemma lev_strip:
  assumes "strip_common_prefix a b = (s1, s2)" "strip_common_suffix s1 s2 = (t1, t2)"
  shows "lev sc a b = lev sc t1 t2"
proof -
  from strip_common_prefix_spec[OF assms(1)] obtain p where p: "a = p @ s1" "b = p @ s2" by blast
  from strip_common_suffix_spec[OF assms(2)] obtain q where q: "s1 = t1 @ q" "s2 = t2 @ q" by blast
  show ?thesis unfolding p q by simp
qed

subsection \<open>The cost matrix over prefixes\<close>

definition cell :: "nat \<Rightarrow> 'a list \<Rightarrow> 'a list \<Rightarrow> nat \<Rightarrow> nat \<Rightarrow> nat" where
  "cell sc s1 s2 i j = lev sc (take i s1) (take j s2)"

lemma cell_0 [simp]: "cell sc s1 s2 0 j = min (length s2) j"
  by (simp add: cell_def)

lemma cell_0' [simp]: "cell sc s1 s2 i 0 = min (length s1) i"
  by (simp add: cell_def)

lemma cell_full [simp]: "cell sc s1 s2 (length s1) (length s2) = lev sc s1 s2"
  by (simp add: cell_def)

lemma cell_Suc_Suc:
  assumes "i < length s1" "j < length s2"
  shows "cell sc s1 s2 (Suc i) (Suc j) =
     min (min (Suc (cell sc s1 s2 i (Suc j))) (Suc (cell sc s1 s2 (Suc i) j)))
         (cell sc s1 s2 i j + (if s1 ! i = s2 ! j then 0 else sc))"
  using assms by (simp add: cell_def take_Suc_conv_app_nth lev_snoc_snoc)

lemma lev_snoc1_le: "lev sc (xs @ [x]) ys \<le> Suc (lev sc xs ys)"
  using lev_Cons1_le[of sc x "rev xs" "rev ys"] lev_rev[of sc "xs @ [x]" ys] lev_rev[of sc xs ys]
  by simp

lemma lev_le_snoc1: "lev sc xs ys \<le> Suc (lev sc (xs @ [x]) ys)"
  using lev_le_Cons1[of sc "rev xs" "rev ys" x] lev_rev[of sc "xs @ [x]" ys] lev_rev[of sc xs ys]
  by simp

lemma cell_down_le: "i < length s1 \<Longrightarrow> cell sc s1 s2 (Suc i) j \<le> Suc (cell sc s1 s2 i j)"
  by (simp add: cell_def take_Suc_conv_app_nth lev_snoc1_le)

lemma cell_le_down: "i < length s1 \<Longrightarrow> cell sc s1 s2 i j \<le> Suc (cell sc s1 s2 (Suc i) j)"
  by (simp add: cell_def take_Suc_conv_app_nth lev_le_snoc1)

lemma cell_sym: "cell sc s1 s2 i j = cell sc s2 s1 j i"
  by (simp add: cell_def lev_sym)

lemma cell_right_le: "j < length s2 \<Longrightarrow> cell sc s1 s2 i (Suc j) \<le> Suc (cell sc s1 s2 i j)"
  using cell_down_le[of j s2 sc s1 i] by (simp add: cell_sym[of sc s1 s2])

lemma cell_le_right: "j < length s2 \<Longrightarrow> cell sc s1 s2 i j \<le> Suc (cell sc s1 s2 i (Suc j))"
  using cell_le_down[of j s2 sc s1 i] by (simp add: cell_sym[of sc s1 s2])

lemma cell_match:
  "i < length s1 \<Longrightarrow> j < length s2 \<Longrightarrow> s1 ! i = s2 ! j \<Longrightarrow>
   cell sc s1 s2 (Suc i) (Suc j) = cell sc s1 s2 i j"
  by (simp add: cell_def take_Suc_conv_app_nth)

text \<open>With substitution cost 2 a substitution is never better than a deletion and an insertion.\<close>

lemma cell2_mismatch:
  assumes "i < length s1" "j < length s2" "s1 ! i \<noteq> s2 ! j"
  shows "cell 2 s1 s2 (Suc i) (Suc j) =
           min (Suc (cell 2 s1 s2 (Suc i) j)) (Suc (cell 2 s1 s2 i (Suc j)))"
  using cell_Suc_Suc[OF assms(1,2), of 2] assms(3) cell_down_le[OF assms(1), of 2 s2 j]
  by (auto simp: min_def)

lemma cell2_match_le:
  assumes "i < length s1" "j < length s2" "s1 ! i = s2 ! j"
  shows "cell 2 s1 s2 i j \<le> Suc (cell 2 s1 s2 i (Suc j))"
  using cell_le_right[OF assms(2)] by simp

lemma xcost_sweep_correct:
  assumes "i < length s1" "length row = Suc (length s2)" "1 \<le> p" "p \<le> Suc (length s2)"
    "D = Suc (cell 2 s1 s2 i (p - 1))" "x = cell 2 s1 s2 (Suc i) (p - 1)"
    "\<forall>j. 1 \<le> j \<and> j < p \<longrightarrow> row ! j = cell 2 s1 s2 (Suc i) j"
    "\<forall>j. p \<le> j \<and> j \<le> length s2 \<longrightarrow> row ! j = cell 2 s1 s2 i j"
  shows "length (xcost_sweep (s1 ! i) s2 (length s2) row p (p - 1) D x) = Suc (length s2) \<and>
    (\<forall>j. 1 \<le> j \<and> j \<le> length s2 \<longrightarrow>
       xcost_sweep (s1 ! i) s2 (length s2) row p (p - 1) D x ! j = cell 2 s1 s2 (Suc i) j)"
  using assms
proof (induction "Suc (length s2) - p" arbitrary: row p D x)
  case 0
  then have "p = Suc (length s2)" by simp
  with 0 show ?case by (simp add: xcost_sweep.simps[of _ _ _ row])
next
  case (Suc n)
  then have p: "p \<le> length s2" "1 \<le> p" by simp_all
  then obtain j where j: "p = Suc j" "j < length s2" by (cases p) auto
  define x1 where "x1 = (if s1 ! i = s2 ! j then D - 1 else x + 1)"
  define D1 where "D1 = row ! p + 1"
  define x2 where "x2 = (if x1 > D1 then D1 else x1)"
  have D1: "D1 = Suc (cell 2 s1 s2 i (Suc j))" using Suc.prems(8) p j by (simp add: D1_def)
  have x2: "x2 = cell 2 s1 s2 (Suc i) (Suc j)"
  proof (cases "s1 ! i = s2 ! j")
    case True
    then have "x1 = cell 2 s1 s2 i j" using Suc.prems(5) j by (simp add: x1_def)
    moreover have "cell 2 s1 s2 i j \<le> Suc (cell 2 s1 s2 i (Suc j))"
      using cell_le_right[OF j(2)] by simp
    ultimately show ?thesis
      using cell_match[OF Suc.prems(1) j(2) True, of 2] D1 by (simp add: x2_def)
  next
    case False
    then have "x1 = Suc (cell 2 s1 s2 (Suc i) j)" using Suc.prems(6) j by (simp add: x1_def)
    then show ?thesis
      using cell2_mismatch[OF Suc.prems(1) j(2) False] D1 by (simp add: x2_def min_def)
  qed
  have step: "xcost_sweep (s1 ! i) s2 (length s2) row p (p - 1) D x =
      xcost_sweep (s1 ! i) s2 (length s2) (row[p := x2]) (Suc p) (Suc p - 1) D1 x2"
    using p j by (subst xcost_sweep.simps) (simp add: x1_def D1_def x2_def Let_def)
  have "length (xcost_sweep (s1 ! i) s2 (length s2) (row[p := x2]) (Suc p) (Suc p - 1) D1 x2) = Suc (length s2) \<and>
    (\<forall>j. 1 \<le> j \<and> j \<le> length s2 \<longrightarrow>
       xcost_sweep (s1 ! i) s2 (length s2) (row[p := x2]) (Suc p) (Suc p - 1) D1 x2 ! j = cell 2 s1 s2 (Suc i) j)"
  proof (rule Suc.hyps(1))
    show "n = Suc (length s2) - Suc p" using Suc.hyps(2) by simp
    show "i < length s1" by fact
    show "length (row[p := x2]) = Suc (length s2)" using Suc.prems(2) by simp
    show "1 \<le> Suc p" by simp
    show "Suc p \<le> Suc (length s2)" using p by simp
    show "D1 = Suc (cell 2 s1 s2 i (Suc p - 1))" using D1 j by simp
    show "x2 = cell 2 s1 s2 (Suc i) (Suc p - 1)" using x2 j by simp
    show "\<forall>j. 1 \<le> j \<and> j < Suc p \<longrightarrow> row[p := x2] ! j = cell 2 s1 s2 (Suc i) j"
    proof (intro allI impI)
      fix k assume k: "1 \<le> k \<and> k < Suc p"
      show "row[p := x2] ! k = cell 2 s1 s2 (Suc i) k"
      proof (cases "k = p")
        case True
        have "p < length row" using Suc.prems(2) p by simp
        then show ?thesis using True x2 j by simp
      next
        case False
        then show ?thesis using k Suc.prems(7) by simp
      qed
    qed
    show "\<forall>j. Suc p \<le> j \<and> j \<le> length s2 \<longrightarrow> row[p := x2] ! j = cell 2 s1 s2 i j"
      using Suc.prems(8) by (auto simp: nth_list_update)
  qed
  then show ?case unfolding step .
qed

lemma u_xcost_sweep_eq:
  "u_xcost_sweep char1 string2 e row p char2p D x = xcost_sweep char1 string2 e row p char2p (Suc D) x"
proof (induction char1 string2 e row p char2p D x rule: u_xcost_sweep.induct)
  case (1 char1 string2 e row p char2p D x)
  show ?case
  proof (cases "p \<le> e")
    case True
    show ?thesis
      using 1[OF True refl refl refl] True
      by (subst u_xcost_sweep.simps, subst xcost_sweep.simps) (simp add: Let_def)
  next
    case False
    then show ?thesis
      by (subst u_xcost_sweep.simps, subst xcost_sweep.simps) simp
  qed
qed

lemma u_xcost_rows_eq:
  "1 \<le> i \<Longrightarrow> u_xcost_rows string1 string2 len1 e i row = xcost_rows string1 string2 len1 e i row"
proof (induction string1 string2 len1 e i row rule: u_xcost_rows.induct)
  case (1 string1 string2 len1 e i row)
  show ?case
  proof (cases "i < len1")
    case True
    have "u_xcost_rows string1 string2 len1 e (i + 1)
            (u_xcost_sweep (string1 ! (i - 1)) string2 e row 1 0 (i - 1) i) =
          xcost_rows string1 string2 len1 e (i + 1)
            (u_xcost_sweep (string1 ! (i - 1)) string2 e row 1 0 (i - 1) i)"
      using 1 True by simp
    then show ?thesis
      using True "1.prems"
      by (subst u_xcost_rows.simps, subst xcost_rows.simps) (simp add: u_xcost_sweep_eq)
  next
    case False
    then show ?thesis by (subst u_xcost_rows.simps, subst xcost_rows.simps) simp
  qed
qed

lemma xcost_rows_correct:
  assumes "1 \<le> i" "i \<le> Suc (length s1)" "length row = Suc (length s2)"
    "\<forall>j. 1 \<le> j \<and> j \<le> length s2 \<longrightarrow> row ! j = cell 2 s1 s2 (i - 1) j"
  shows "\<forall>j. 1 \<le> j \<and> j \<le> length s2 \<longrightarrow>
    xcost_rows s1 s2 (Suc (length s1)) (length s2) i row ! j = cell 2 s1 s2 (length s1) j"
  using assms
proof (induction "Suc (length s1) - i" arbitrary: i row)
  case 0
  then have "i = Suc (length s1)" by simp
  with 0 show ?case by (simp add: xcost_rows.simps[of _ _ _ _ "Suc (length s1)"])
next
  case (Suc n)
  then obtain k where k: "i = Suc k" "k < length s1" by (cases i) auto
  let ?row = "xcost_sweep (s1 ! k) s2 (length s2) row 1 (1 - 1) i i"
  have sw: "length ?row = Suc (length s2) \<and>
    (\<forall>j. 1 \<le> j \<and> j \<le> length s2 \<longrightarrow> ?row ! j = cell 2 s1 s2 (Suc k) j)"
  proof (rule xcost_sweep_correct)
    show "k < length s1" by fact
    show "length row = Suc (length s2)" by fact
    show "i = Suc (cell 2 s1 s2 k (1 - 1))" using k by simp
    show "i = cell 2 s1 s2 (Suc k) (1 - 1)" using k by simp
    show "\<forall>j. 1 \<le> j \<and> j < 1 \<longrightarrow> row ! j = cell 2 s1 s2 (Suc k) j" by simp
    show "\<forall>j. 1 \<le> j \<and> j \<le> length s2 \<longrightarrow> row ! j = cell 2 s1 s2 k j"
      using Suc.prems(4) k by simp
  qed simp_all
  have step: "xcost_rows s1 s2 (Suc (length s1)) (length s2) i row =
      xcost_rows s1 s2 (Suc (length s1)) (length s2) (Suc i) ?row"
    using k by (subst xcost_rows.simps) simp
  have "\<forall>j. 1 \<le> j \<and> j \<le> length s2 \<longrightarrow>
    xcost_rows s1 s2 (Suc (length s1)) (length s2) (Suc i) ?row ! j = cell 2 s1 s2 (length s1) j"
  proof (rule Suc.hyps(1))
    show "n = Suc (length s1) - Suc i" using Suc.hyps(2) by simp
    show "Suc i \<le> Suc (length s1)" using k by simp
    show "length ?row = Suc (length s2)" using sw by simp
    show "\<forall>j. 1 \<le> j \<and> j \<le> length s2 \<longrightarrow> ?row ! j = cell 2 s1 s2 (Suc i - 1) j"
      using sw k by simp
  qed simp
  then show ?case unfolding step .
qed

lemma init_row_length [simp]: "length (init_row f len2 n) = len2"
  by (simp add: init_row_def)

lemma init_row_nth: "k < len2 \<Longrightarrow> init_row f len2 n ! k = (if k < n then k else f k)"
  by (simp add: init_row_def)

lemma distance_rows_xcost:
  assumes "heap (Suc (length s2)) = Some f" "s2 \<noteq> []"
  shows "distance_rows xcost_rows heap s1 s2 True = Inr (lev 2 s1 s2)"
proof -
  let ?row = "init_row f (Suc (length s2)) (Suc (length s2))"
  have "\<forall>j. 1 \<le> j \<and> j \<le> length s2 \<longrightarrow>
    xcost_rows s1 s2 (Suc (length s1)) (length s2) 1 ?row ! j = cell 2 s1 s2 (length s1) j"
    by (rule xcost_rows_correct) (simp_all add: init_row_nth)
  moreover have "1 \<le> length s2" using assms(2) by (cases s2) auto
  ultimately have "xcost_rows s1 s2 (Suc (length s1)) (length s2) 1 ?row ! length s2 = lev 2 s1 s2"
    by simp
  then show ?thesis using assms(1) by (simp add: distance_rows_def Let_def)
qed

lemma distance_rows_u_xcost:
  assumes "heap (Suc (length s2)) = Some f" "s2 \<noteq> []"
  shows "distance_rows u_xcost_rows heap s1 s2 True = Inr (lev 2 s1 s2)"
  using distance_rows_xcost[of heap s2 f s1] assms
  by (simp add: distance_rows_def Let_def u_xcost_rows_eq)

subsection \<open>The corner-skipping sweep\<close>

lemma lev_ge_diff1: "length xs - length ys \<le> lev sc xs ys"
  by (induction sc xs ys rule: lev.induct) (auto simp: min_def)

lemma lev_ge_diff2: "length ys - length xs \<le> lev sc xs ys"
  by (induction sc xs ys rule: lev.induct) (auto simp: min_def)

lemma lev1_le_max: "lev 1 xs ys \<le> max (length xs) (length ys)"
  by (induction "1::nat" xs ys rule: lev.induct) (auto simp: min_def max_def)

lemma cell_ge_diff1: "i \<le> length s1 \<Longrightarrow> j \<le> length s2 \<Longrightarrow> i - j \<le> cell sc s1 s2 i j"
  using lev_ge_diff1[of "take i s1" "take j s2" sc] by (simp add: cell_def)

lemma cell_ge_diff2: "i \<le> length s1 \<Longrightarrow> j \<le> length s2 \<Longrightarrow> j - i \<le> cell sc s1 s2 i j"
  using lev_ge_diff2[of "take j s2" "take i s1" sc] by (simp add: cell_def)

text \<open>
  A cell is \<open>good\<close> when its distance plus the least cost of what remains does not exceed
  the length of the longer string, which bounds the final distance.
\<close>

definition good :: "'a list \<Rightarrow> 'a list \<Rightarrow> nat \<Rightarrow> nat \<Rightarrow> bool" where
  "good s1 s2 i j \<longleftrightarrow>
     cell 1 s1 s2 i j + ((length s2 - j) - (length s1 - i)) + ((length s1 - i) - (length s2 - j))
       \<le> length s2"

definition approx :: "'a list \<Rightarrow> 'a list \<Rightarrow> nat \<Rightarrow> nat \<Rightarrow> nat \<Rightarrow> bool" where
  "approx s1 s2 i j v \<longleftrightarrow> cell 1 s1 s2 i j \<le> v \<and> (good s1 s2 i j \<longrightarrow> v = cell 1 s1 s2 i j)"

lemma approx_exact [simp]: "approx s1 s2 i j (cell 1 s1 s2 i j)"
  by (simp add: approx_def)

lemma good_band:
  assumes "good s1 s2 i j" "i \<le> length s1" "j \<le> length s2" "2 * h \<le> length s1 + 1"
    "length s1 \<le> length s2"
  shows "i + 1 - (length s1 + 1 - h) \<le> j \<and> j \<le> length s2 + i - h"
  using assms cell_ge_diff1[OF assms(2,3), of 1] cell_ge_diff2[OF assms(2,3), of 1]
  unfolding good_def by linarith

lemma good_diag:
  assumes "good s1 s2 (Suc i) (Suc j)" "i < length s1" "j < length s2"
    "cell 1 s1 s2 (Suc i) (Suc j) = cell 1 s1 s2 i j + d"
  shows "good s1 s2 i j"
  using assms unfolding good_def by linarith

lemma good_up:
  assumes "good s1 s2 (Suc i) j" "i < length s1" "j \<le> length s2"
    "cell 1 s1 s2 (Suc i) j = Suc (cell 1 s1 s2 i j)"
  shows "good s1 s2 i j"
  using assms unfolding good_def by linarith

lemma good_left:
  assumes "good s1 s2 i (Suc j)" "i \<le> length s1" "j < length s2"
    "cell 1 s1 s2 i (Suc j) = Suc (cell 1 s1 s2 i j)"
  shows "good s1 s2 i j"
  using assms unfolding good_def by linarith

lemma cell1_cases:
  assumes "i < length s1" "j < length s2"
  shows "cell 1 s1 s2 (Suc i) (Suc j) = Suc (cell 1 s1 s2 i (Suc j)) \<or>
         cell 1 s1 s2 (Suc i) (Suc j) = Suc (cell 1 s1 s2 (Suc i) j) \<or>
         cell 1 s1 s2 (Suc i) (Suc j) = cell 1 s1 s2 i j + (if s1 ! i \<noteq> s2 ! j then 1 else 0)"
  using cell_Suc_Suc[OF assms, of 1] by (auto simp: min_def)

lemma cell1_le:
  assumes "i < length s1" "j < length s2"
  shows "cell 1 s1 s2 (Suc i) (Suc j) \<le> Suc (cell 1 s1 s2 i (Suc j))"
        "cell 1 s1 s2 (Suc i) (Suc j) \<le> Suc (cell 1 s1 s2 (Suc i) j)"
        "cell 1 s1 s2 (Suc i) (Suc j) \<le> cell 1 s1 s2 i j + (if s1 ! i \<noteq> s2 ! j then 1 else 0)"
  using cell_Suc_Suc[OF assms, of 1] by (auto simp: min_def)

text \<open>A cell computed from all three neighbours.\<close>

lemma approx_step3:
  assumes "i < length s1" "j < length s2"
    "approx s1 s2 i j vd" "approx s1 s2 i (Suc j) vu" "approx s1 s2 (Suc i) j vl"
  shows "approx s1 s2 (Suc i) (Suc j)
           (min (min (vl + 1) (vd + (if s1 ! i \<noteq> s2 ! j then 1 else 0))) (vu + 1))"
proof -
  let ?d = "if s1 ! i \<noteq> s2 ! j then 1 else 0 :: nat"
  let ?v = "min (min (vl + 1) (vd + ?d)) (vu + 1)"
  have lower: "cell 1 s1 s2 (Suc i) (Suc j) \<le> ?v"
    using cell1_le[OF assms(1,2)] assms(3,4,5) unfolding approx_def by (auto simp: min_def)
  have "?v = cell 1 s1 s2 (Suc i) (Suc j)" if g: "good s1 s2 (Suc i) (Suc j)"
  proof -
    from cell1_cases[OF assms(1,2)] have "?v \<le> cell 1 s1 s2 (Suc i) (Suc j)"
    proof (elim disjE)
      assume c: "cell 1 s1 s2 (Suc i) (Suc j) = Suc (cell 1 s1 s2 i (Suc j))"
      from good_up[OF g assms(1) _ c] assms(2) have "good s1 s2 i (Suc j)" by simp
      with assms(4) have "vu = cell 1 s1 s2 i (Suc j)" by (simp add: approx_def)
      with c show ?thesis by simp
    next
      assume c: "cell 1 s1 s2 (Suc i) (Suc j) = Suc (cell 1 s1 s2 (Suc i) j)"
      from good_left[OF g _ assms(2) c] assms(1) have "good s1 s2 (Suc i) j" by simp
      with assms(5) have "vl = cell 1 s1 s2 (Suc i) j" by (simp add: approx_def)
      with c show ?thesis by simp
    next
      assume c: "cell 1 s1 s2 (Suc i) (Suc j) = cell 1 s1 s2 i j + ?d"
      from good_diag[OF g assms(1,2) c] have "good s1 s2 i j" .
      with assms(3) have "vd = cell 1 s1 s2 i j" by (simp add: approx_def)
      with c show ?thesis by (simp add: min.coboundedI1 min.coboundedI2)
    qed
    then show ?thesis using lower by (rule le_antisym)
  qed
  with lower show ?thesis by (simp add: approx_def)
qed

text \<open>The first cell of a row behind the upper triangle: no left neighbour.\<close>

lemma approx_step_no_left:
  assumes "i < length s1" "j < length s2"
    "approx s1 s2 i j vd" "approx s1 s2 i (Suc j) vu" "\<not> good s1 s2 (Suc i) j"
  shows "approx s1 s2 (Suc i) (Suc j)
           (min (vu + 1) (vd + (if s1 ! i \<noteq> s2 ! j then 1 else 0)))"
proof -
  let ?d = "if s1 ! i \<noteq> s2 ! j then 1 else 0 :: nat"
  let ?v = "min (vu + 1) (vd + ?d)"
  have lower: "cell 1 s1 s2 (Suc i) (Suc j) \<le> ?v"
    using cell1_le[OF assms(1,2)] assms(3,4) unfolding approx_def by (auto simp: min_def)
  have "?v = cell 1 s1 s2 (Suc i) (Suc j)" if g: "good s1 s2 (Suc i) (Suc j)"
  proof -
    from cell1_cases[OF assms(1,2)] have "?v \<le> cell 1 s1 s2 (Suc i) (Suc j)"
    proof (elim disjE)
      assume c: "cell 1 s1 s2 (Suc i) (Suc j) = Suc (cell 1 s1 s2 i (Suc j))"
      from good_up[OF g assms(1) _ c] assms(2) have "good s1 s2 i (Suc j)" by simp
      with assms(4) have "vu = cell 1 s1 s2 i (Suc j)" by (simp add: approx_def)
      with c show ?thesis by simp
    next
      assume c: "cell 1 s1 s2 (Suc i) (Suc j) = Suc (cell 1 s1 s2 (Suc i) j)"
      from good_left[OF g _ assms(2) c] assms(1) have "good s1 s2 (Suc i) j" by simp
      with assms(5) show ?thesis by simp
    next
      assume c: "cell 1 s1 s2 (Suc i) (Suc j) = cell 1 s1 s2 i j + ?d"
      from good_diag[OF g assms(1,2) c] have "good s1 s2 i j" .
      with assms(3) have "vd = cell 1 s1 s2 i j" by (simp add: approx_def)
      with c show ?thesis by (simp add: min.coboundedI1 min.coboundedI2)
    qed
    then show ?thesis using lower by (rule le_antisym)
  qed
  with lower show ?thesis by (simp add: approx_def)
qed

text \<open>The sentinel cell next to the lower triangle: no upper neighbour.\<close>

lemma approx_step_no_up:
  assumes "i < length s1" "j < length s2"
    "approx s1 s2 i j vd" "approx s1 s2 (Suc i) j vl" "\<not> good s1 s2 i (Suc j)"
  shows "approx s1 s2 (Suc i) (Suc j)
           (min (vl + 1) (vd + (if s1 ! i \<noteq> s2 ! j then 1 else 0)))"
proof -
  let ?d = "if s1 ! i \<noteq> s2 ! j then 1 else 0 :: nat"
  let ?v = "min (vl + 1) (vd + ?d)"
  have lower: "cell 1 s1 s2 (Suc i) (Suc j) \<le> ?v"
    using cell1_le[OF assms(1,2)] assms(3,4) unfolding approx_def by (auto simp: min_def)
  have "?v = cell 1 s1 s2 (Suc i) (Suc j)" if g: "good s1 s2 (Suc i) (Suc j)"
  proof -
    from cell1_cases[OF assms(1,2)] have "?v \<le> cell 1 s1 s2 (Suc i) (Suc j)"
    proof (elim disjE)
      assume c: "cell 1 s1 s2 (Suc i) (Suc j) = Suc (cell 1 s1 s2 i (Suc j))"
      from good_up[OF g assms(1) _ c] assms(2) have "good s1 s2 i (Suc j)" by simp
      with assms(5) show ?thesis by simp
    next
      assume c: "cell 1 s1 s2 (Suc i) (Suc j) = Suc (cell 1 s1 s2 (Suc i) j)"
      from good_left[OF g _ assms(2) c] assms(1) have "good s1 s2 (Suc i) j" by simp
      with assms(4) have "vl = cell 1 s1 s2 (Suc i) j" by (simp add: approx_def)
      with c show ?thesis by simp
    next
      assume c: "cell 1 s1 s2 (Suc i) (Suc j) = cell 1 s1 s2 i j + ?d"
      from good_diag[OF g assms(1,2) c] have "good s1 s2 i j" .
      with assms(3) have "vd = cell 1 s1 s2 i j" by (simp add: approx_def)
      with c show ?thesis by (simp add: min.coboundedI1 min.coboundedI2)
    qed
    then show ?thesis using lower by (rule le_antisym)
  qed
  with lower show ?thesis by (simp add: approx_def)
qed

lemma if_gt_min: "(if (a::nat) > b then b else a) = min a b"
  by (simp add: min_def)

lemma band_sweep_correct:
  assumes "i < length s1" "length row = Suc (length s2)" "1 \<le> p" "p \<le> Suc e" "e \<le> length s2"
    "1 \<le> D" "approx s1 s2 i (p - 1) (D - 1)" "approx s1 s2 (Suc i) (p - 1) x"
    "\<forall>j. p \<le> j \<and> j \<le> e \<longrightarrow> approx s1 s2 i j (row ! j)"
  shows "\<exists>row' D' x'. band_sweep (s1 ! i) s2 e row p (p - 1) D x = (row', Suc e, e, D', x') \<and>
    length row' = Suc (length s2) \<and> 1 \<le> D' \<and> approx s1 s2 i e (D' - 1) \<and>
    approx s1 s2 (Suc i) e x' \<and>
    (\<forall>j. p \<le> j \<and> j \<le> e \<longrightarrow> approx s1 s2 (Suc i) j (row' ! j)) \<and>
    (\<forall>j. j < p \<or> e < j \<longrightarrow> row' ! j = row ! j)"
  using assms
proof (induction "Suc e - p" arbitrary: row p D x)
  case 0
  then have p: "p = Suc e" by simp
  have "band_sweep (s1 ! i) s2 e row p (p - 1) D x = (row, Suc e, e, D, x)"
    using p by (subst band_sweep.simps) simp
  then show ?case using 0 p by auto
next
  case (Suc n)
  then have p: "p \<le> e" "1 \<le> p" by simp_all
  then obtain j where j: "p = Suc j" "j < length s2" using Suc.prems(5) by (cases p) auto
  define x3 where "x3 = min (min (x + 1) ((D - 1) + (if s1 ! i \<noteq> s2 ! j then 1 else 0))) (row ! p + 1)"
  define D1 where "D1 = row ! p + 1"
  have up: "approx s1 s2 i (Suc j) (row ! p)" using Suc.prems(9) p j by simp
  have x3: "approx s1 s2 (Suc i) p x3"
    unfolding x3_def j
    by (rule approx_step3[OF Suc.prems(1) j(2)]) (use Suc.prems(7,8) up j in simp_all)
  have step: "band_sweep (s1 ! i) s2 e row p (p - 1) D x =
      band_sweep (s1 ! i) s2 e (row[p := x3]) (Suc p) (Suc p - 1) D1 x3"
    using p j by (subst band_sweep.simps) (simp add: D1_def x3_def Let_def if_gt_min)
  have plen: "p < length row" using Suc.prems(2,5) p by simp
  have "\<exists>row' D' x'. band_sweep (s1 ! i) s2 e (row[p := x3]) (Suc p) (Suc p - 1) D1 x3
       = (row', Suc e, e, D', x') \<and>
    length row' = Suc (length s2) \<and> 1 \<le> D' \<and> approx s1 s2 i e (D' - 1) \<and>
    approx s1 s2 (Suc i) e x' \<and>
    (\<forall>j. Suc p \<le> j \<and> j \<le> e \<longrightarrow> approx s1 s2 (Suc i) j (row' ! j)) \<and>
    (\<forall>j. j < Suc p \<or> e < j \<longrightarrow> row' ! j = row[p := x3] ! j)"
  proof (rule Suc.hyps(1))
    show "n = Suc e - Suc p" using Suc.hyps(2) by simp
    show "i < length s1" by fact
    show "length (row[p := x3]) = Suc (length s2)" using Suc.prems(2) by simp
    show "1 \<le> Suc p" by simp
    show "Suc p \<le> Suc e" using p by simp
    show "e \<le> length s2" by fact
    show "1 \<le> D1" by (simp add: D1_def)
    show "approx s1 s2 i (Suc p - 1) (D1 - 1)" using up j by (simp add: D1_def)
    show "approx s1 s2 (Suc i) (Suc p - 1) x3" using x3 by simp
    show "\<forall>j. Suc p \<le> j \<and> j \<le> e \<longrightarrow> approx s1 s2 i j (row[p := x3] ! j)"
      using Suc.prems(9) by simp
  qed
  then obtain row' D' x' where r:
    "band_sweep (s1 ! i) s2 e (row[p := x3]) (Suc p) (Suc p - 1) D1 x3 = (row', Suc e, e, D', x')"
    "length row' = Suc (length s2)" "1 \<le> D'" "approx s1 s2 i e (D' - 1)"
    "approx s1 s2 (Suc i) e x'"
    "\<forall>j. Suc p \<le> j \<and> j \<le> e \<longrightarrow> approx s1 s2 (Suc i) j (row' ! j)"
    "\<forall>j. j < Suc p \<or> e < j \<longrightarrow> row' ! j = row[p := x3] ! j"
    by blast
  have a: "\<forall>j. p \<le> j \<and> j \<le> e \<longrightarrow> approx s1 s2 (Suc i) j (row' ! j)"
  proof (intro allI impI)
    fix k assume k: "p \<le> k \<and> k \<le> e"
    show "approx s1 s2 (Suc i) k (row' ! k)"
    proof (cases "k = p")
      case True
      then have "row' ! k = x3" using r(7) plen by simp
      then show ?thesis using x3 True by simp
    next
      case False
      then show ?thesis using k r(6) by simp
    qed
  qed
  have b: "\<forall>j. j < p \<or> e < j \<longrightarrow> row' ! j = row ! j"
    using r(7) p by auto
  show ?case unfolding step using r(1-5) a b by blast
qed

definition band_inv :: "'a list \<Rightarrow> 'a list \<Rightarrow> nat \<Rightarrow> nat list \<Rightarrow> bool" where
  "band_inv s1 s2 r row \<longleftrightarrow>
     length row = Suc (length s2) \<and>
     (r < Suc (length s1) - Suc (length s1) div 2 \<longrightarrow>
        row ! 0 = length s1 - Suc (length s1) div 2) \<and>
     (\<forall>j. 1 \<le> j \<and> Suc r - (Suc (length s1) - Suc (length s1) div 2) \<le> j \<and>
          j \<le> length s2 \<and> j \<le> length s2 + r - Suc (length s1) div 2 \<longrightarrow>
          approx s1 s2 r j (row ! j))"

lemma half_facts:
  assumes "2 \<le> (n1::nat)"
  shows "2 * (Suc n1 div 2) \<le> n1 + 1" "n1 \<le> 2 * (Suc n1 div 2)" "1 \<le> Suc n1 div 2"
    "Suc n1 div 2 + 1 \<le> n1" "Suc n1 - Suc n1 div 2 + Suc n1 div 2 = n1 + 1"
    "Suc n1 div 2 \<le> Suc n1 - Suc n1 div 2" "2 \<le> Suc n1 - Suc n1 div 2"
  using assms by presburger+

lemma band_start_correct:
  assumes n: "2 \<le> length s1" "length s1 \<le> length s2" and r: "r < length s1"
    and inv: "band_inv s1 s2 r row"
  shows "\<exists>row1 p D x. band_start (s1 ! r) s2 (Suc (length s1)) (Suc (length s1) div 2) (Suc r) row
        = (row1, p, p - 1, D, x) \<and>
      length row1 = Suc (length s2) \<and> 1 \<le> p \<and>
      p = Suc (Suc (Suc r) - (Suc (length s1) - Suc (length s1) div 2)) \<and>
      1 \<le> D \<and> approx s1 s2 r (p - 1) (D - 1) \<and> approx s1 s2 (Suc r) (p - 1) x \<and>
      (\<forall>j. p \<le> j \<longrightarrow> row1 ! j = row ! j) \<and> row1 ! 0 = row ! 0 \<and>
      (2 \<le> p \<longrightarrow> row1 ! (p - 1) = x)"
proof -
  define n1 where "n1 = length s1"
  define n2 where "n2 = length s2"
  define h where "h = Suc n1 div 2"
  define a where "a = Suc n1 - h"
  have ar: "2 * h \<le> n1 + 1" "n1 \<le> 2 * h" "1 \<le> h" "h + 1 \<le> n1" "a + h = n1 + 1" "h \<le> a" "2 \<le> n2"
    "n1 \<le> n2" "r < n1" "2 \<le> a"
    using n r half_facts[of n1] unfolding h_def a_def n1_def n2_def by simp_all
  have len: "length row = Suc n2" using inv by (simp add: band_inv_def n2_def)
  have inv0: "r < a \<Longrightarrow> row ! 0 = n1 - h"
    using inv unfolding band_inv_def a_def h_def n1_def n2_def by blast
  have invj: "approx s1 s2 r j (row ! j)"
    if "1 \<le> j" "Suc r - a \<le> j" "j \<le> n2" "j \<le> n2 + r - h" for j
    using inv that unfolding band_inv_def a_def h_def n1_def n2_def by blast
  have bs_def: "band_start (s1 ! r) s2 (Suc (length s1)) (Suc (length s1) div 2) (Suc r) row =
     (if Suc r \<ge> a then
        let offset = Suc r - a;
            c3 = row ! offset + (if s1 ! r \<noteq> s2 ! offset then 1 else 0);
            x = row ! (offset + 1) + 1;
            D = x;
            x = (if x > c3 then c3 else x)
        in (row[offset + 1 := x], offset + 2, offset + 1, D, x)
      else (row, 1, 0, Suc r, Suc r))"
    by (simp add: band_start_def a_def h_def n1_def)
  have goal_p: "Suc (Suc (Suc r) - (Suc (length s1) - Suc (length s1) div 2)) = Suc (Suc (Suc r) - a)"
    by (simp add: a_def h_def n1_def)
  show ?thesis
  proof (cases "Suc r \<ge> a")
    case False
    then have "band_start (s1 ! r) s2 (Suc (length s1)) (Suc (length s1) div 2) (Suc r) row
        = (row, 1, 1 - 1, Suc r, Suc r)"
      unfolding bs_def by simp
    moreover have "approx s1 s2 r 0 r" "approx s1 s2 (Suc r) 0 (Suc r)"
      using approx_exact[of s1 s2 r 0] approx_exact[of s1 s2 "Suc r" 0] ar by (simp_all add: n1_def)
    moreover have "Suc (Suc r) - a = 0" using False by simp
    ultimately show ?thesis unfolding goal_p using len by (simp add: n2_def)
  next
    case True
    define offset where "offset = Suc r - a"
    define vd where "vd = row ! offset"
    define vu where "vu = row ! (offset + 1)"
    define xn where "xn = min (vu + 1) (vd + (if s1 ! r \<noteq> s2 ! offset then 1 else 0))"
    have off: "offset < n2" "offset + a = Suc r" using True ar by (simp_all add: offset_def)
    have bs: "band_start (s1 ! r) s2 (Suc (length s1)) (Suc (length s1) div 2) (Suc r) row
        = (row[offset + 1 := xn], offset + 2, (offset + 2) - 1, vu + 1, xn)"
      unfolding bs_def using True
      by (simp add: offset_def vd_def vu_def xn_def Let_def min_def)
    have vd: "approx s1 s2 r offset vd"
    proof (cases "offset = 0")
      case True
      then have "r < a" using off by simp
      then have "row ! 0 = n1 - h" by (rule inv0)
      moreover have "cell 1 s1 s2 r 0 = r" using ar by (simp add: n1_def)
      moreover have "n1 - h = r" using True off ar by simp
      ultimately show ?thesis using True approx_exact[of s1 s2 r 0] by (simp add: vd_def)
    next
      case False
      show ?thesis unfolding vd_def
      proof (rule invj)
        show "1 \<le> offset" using False by simp
        show "Suc r - a \<le> offset" by (simp add: offset_def)
        show "offset \<le> n2" using off by simp
        show "offset \<le> n2 + r - h" using off ar by linarith
      qed
    qed
    have vu: "approx s1 s2 r (Suc offset) vu"
      unfolding vu_def Suc_eq_plus1[symmetric]
    proof (rule invj)
      show "1 \<le> Suc offset" by simp
      show "Suc r - a \<le> Suc offset" by (simp add: offset_def)
      show "Suc offset \<le> n2" using off by simp
      show "Suc offset \<le> n2 + r - h" using off ar by linarith
    qed
    have ng: "\<not> good s1 s2 (Suc r) offset"
    proof
      assume "good s1 s2 (Suc r) offset"
      from good_band[OF this, of h] have "Suc r + 1 - (n1 + 1 - h) \<le> offset"
        using ar off by (simp add: n1_def n2_def)
      then show False using off ar by linarith
    qed
    have xn: "approx s1 s2 (Suc r) (Suc offset) xn"
      unfolding xn_def
      using approx_step_no_left[OF _ _ vd vu ng] off ar by (simp add: n1_def n2_def)
    have "offset + 1 < length row" using len off by simp
    moreover have "Suc (Suc r) - a = Suc offset" using True by (simp add: offset_def)
    ultimately show ?thesis unfolding goal_p using bs len vu xn
      by (simp add: n2_def)
  qed
qed

lemma band_row_correct:
  assumes n: "2 \<le> length s1" "length s1 \<le> length s2" and r: "r < length s1"
    and inv: "band_inv s1 s2 r row"
    and e: "Suc (length s1) div 2 + 1 < Suc r \<longrightarrow> e = length s2"
  shows "\<exists>row'. band_row s1 s2 (Suc (length s1)) (Suc (length s2)) (Suc (length s1) div 2) (Suc r) e row
        = (row', min (length s2) (length s2 + r - Suc (length s1) div 2)) \<and>
      band_inv s1 s2 (Suc r) row'"
proof -
  define n1 where "n1 = length s1"
  define n2 where "n2 = length s2"
  define h where "h = Suc n1 div 2"
  define a where "a = Suc n1 - h"
  have ar: "2 * h \<le> n1 + 1" "n1 \<le> 2 * h" "1 \<le> h" "h + 1 \<le> n1" "a + h = n1 + 1" "h \<le> a" "2 \<le> n2"
    "n1 \<le> n2" "r < n1" "2 \<le> a"
    using n r half_facts[of n1] unfolding h_def a_def n1_def n2_def by simp_all
  have len: "length row = Suc n2" using inv by (simp add: band_inv_def n2_def)
  have inv0: "r < a \<Longrightarrow> row ! 0 = n1 - h"
    using inv unfolding band_inv_def a_def h_def n1_def n2_def by blast
  have invj: "approx s1 s2 r j (row ! j)"
    if "1 \<le> j" "Suc r - a \<le> j" "j \<le> n2" "j \<le> n2 + r - h" for j
    using inv that unfolding band_inv_def a_def h_def n1_def n2_def by blast
  define lo where "lo = Suc (Suc r) - a"
  from band_start_correct[OF n r inv] obtain row1 p D x where st:
    "band_start (s1 ! r) s2 (Suc (length s1)) (Suc (length s1) div 2) (Suc r) row = (row1, p, p - 1, D, x)"
    "length row1 = Suc n2" "p = Suc lo" "1 \<le> D" "approx s1 s2 r (p - 1) (D - 1)"
    "approx s1 s2 (Suc r) (p - 1) x" "\<forall>j. p \<le> j \<longrightarrow> row1 ! j = row ! j" "row1 ! 0 = row ! 0"
    "2 \<le> p \<longrightarrow> row1 ! (p - 1) = x"
    unfolding lo_def a_def h_def n1_def n2_def by blast
  define e1 where "e1 = min n2 (n2 + r - h)"
  have e1: "(if Suc r \<le> Suc (length s1) div 2 + 1 then Suc (length s2) + Suc r - Suc (length s1) div 2 - 2 else e) = e1"
    using e ar unfolding e1_def h_def[symmetric, unfolded n1_def] n2_def[symmetric] n1_def[symmetric]
    by (auto simp: min_def)
  have pe: "p \<le> Suc e1" using st(3) ar unfolding lo_def e1_def by (simp add: min_def) linarith
  have "\<exists>row' D' x'. band_sweep (s1 ! r) s2 e1 row1 p (p - 1) D x = (row', Suc e1, e1, D', x') \<and>
    length row' = Suc (length s2) \<and> 1 \<le> D' \<and> approx s1 s2 r e1 (D' - 1) \<and>
    approx s1 s2 (Suc r) e1 x' \<and>
    (\<forall>j. p \<le> j \<and> j \<le> e1 \<longrightarrow> approx s1 s2 (Suc r) j (row' ! j)) \<and>
    (\<forall>j. j < p \<or> e1 < j \<longrightarrow> row' ! j = row1 ! j)"
  proof (rule band_sweep_correct)
    show "r < length s1" by fact
    show "length row1 = Suc (length s2)" using st(2) by (simp add: n2_def)
    show "1 \<le> p" using st(3) by simp
    show "p \<le> Suc e1" by fact
    show "e1 \<le> length s2" by (simp add: e1_def n2_def)
    show "1 \<le> D" by fact
    show "approx s1 s2 r (p - 1) (D - 1)" by fact
    show "approx s1 s2 (Suc r) (p - 1) x" by fact
    show "\<forall>j. p \<le> j \<and> j \<le> e1 \<longrightarrow> approx s1 s2 r j (row1 ! j)"
    proof (intro allI impI)
      fix j assume j: "p \<le> j \<and> j \<le> e1"
      have "approx s1 s2 r j (row ! j)"
      proof (rule invj)
        show "1 \<le> j" using j st(3) by simp
        show "Suc r - a \<le> j" using j st(3) unfolding lo_def by linarith
        show "j \<le> n2" using j by (simp add: e1_def)
        show "j \<le> n2 + r - h" using j by (simp add: e1_def)
      qed
      then show "approx s1 s2 r j (row1 ! j)" using st(7) j by simp
    qed
  qed
  then obtain row2 D' x' where sw:
    "band_sweep (s1 ! r) s2 e1 row1 p (p - 1) D x = (row2, Suc e1, e1, D', x')"
    "length row2 = Suc n2" "1 \<le> D'" "approx s1 s2 r e1 (D' - 1)" "approx s1 s2 (Suc r) e1 x'"
    "\<forall>j. p \<le> j \<and> j \<le> e1 \<longrightarrow> approx s1 s2 (Suc r) j (row2 ! j)"
    "\<forall>j. j < p \<or> e1 < j \<longrightarrow> row2 ! j = row1 ! j"
    unfolding n2_def by blast
  define xs where "xs = min (x' + 1) ((D' - 1) + (if s1 ! r \<noteq> s2 ! e1 then 1 else 0))"
  define row' where "row' = (if Suc r \<le> h then row2[Suc e1 := xs] else row2)"
  have br: "band_row s1 s2 (Suc (length s1)) (Suc (length s2)) (Suc (length s1) div 2) (Suc r) e row
      = (row', e1)"
    unfolding band_row_def Let_def diff_Suc_1 st(1) prod.case e1 sw(1)
    by (simp add: row'_def xs_def h_def n1_def if_gt_min)
  have sent: "approx s1 s2 (Suc r) (Suc e1) xs" if "Suc r \<le> h"
  proof -
    from that have e1v: "e1 = n2 + r - h" "e1 < n2" using ar by (simp_all add: e1_def min_def)
    have ng: "\<not> good s1 s2 r (Suc e1)"
    proof
      assume "good s1 s2 r (Suc e1)"
      from good_band[OF this, of h] have "Suc e1 \<le> n2 + r - h"
        using ar e1v by (simp add: n1_def n2_def)
      then show False using e1v by simp
    qed
    show ?thesis
      unfolding xs_def
      using approx_step_no_up[OF _ _ sw(4,5) ng] e1v ar by (simp add: n1_def n2_def)
  qed
  have "band_inv s1 s2 (Suc r) row'"
    unfolding band_inv_def
  proof (intro conjI allI impI)
    show "length row' = Suc (length s2)" using sw(2) by (simp add: row'_def n2_def)
  next
    assume "Suc r < Suc (length s1) - Suc (length s1) div 2"
    then have ra: "Suc r < a" by (simp add: a_def h_def n1_def)
    then have "row ! 0 = n1 - h" using inv0 by simp
    moreover have "row' ! 0 = row2 ! 0" by (simp add: row'_def)
    moreover have "row2 ! 0 = row1 ! 0" using sw(7) st(3) by simp
    ultimately show "row' ! 0 = length s1 - Suc (length s1) div 2"
      using st(8) by (simp add: h_def n1_def)
  next
    fix j
    assume "1 \<le> j \<and> Suc (Suc r) - (Suc (length s1) - Suc (length s1) div 2) \<le> j \<and>
          j \<le> length s2 \<and> j \<le> length s2 + Suc r - Suc (length s1) div 2"
    then have j: "1 \<le> j" "lo \<le> j" "j \<le> n2" "j \<le> n2 + Suc r - h"
      by (simp_all add: lo_def a_def h_def n1_def n2_def)
    have "h \<le> n2 + r" using ar by linarith
    then have "j \<le> Suc e1" using j unfolding e1_def min_def by (cases "n2 \<le> n2 + r - h") simp_all
    then consider "j = lo" | "p \<le> j \<and> j \<le> e1" | "j = Suc e1"
      using j st(3) by linarith
    then show "approx s1 s2 (Suc r) j (row' ! j)"
    proof cases
      case 1
      then have p2: "2 \<le> p" "p - 1 = j" using j st(3) by simp_all
      then have "row1 ! j = x" using st(9) by simp
      moreover have "row2 ! j = row1 ! j" using sw(7) p2 by simp
      moreover have "row' ! j = row2 ! j" using p2 pe by (simp add: row'_def)
      ultimately show ?thesis using st(6) p2 by simp
    next
      case 2
      then have "row' ! j = row2 ! j" by (simp add: row'_def)
      then show ?thesis using sw(6) 2 by simp
    next
      case 3
      have "Suc e1 \<le> n2" using 3 j by simp
      then have "e1 < n2" by simp
      then have "n2 + r - h < n2" unfolding e1_def min_def by (cases "n2 \<le> n2 + r - h") simp_all
      then have rh: "Suc r \<le> h" by linarith
      then have "row' ! j = xs" using 3 j sw(2) by (simp add: row'_def)
      then show ?thesis using sent[OF rh] 3 by simp
    qed
  qed
  then show ?thesis using br unfolding e1_def n2_def h_def n1_def by blast
qed

lemma band_rows_correct:
  assumes n: "2 \<le> length s1" "length s1 \<le> length s2" and i: "i \<le> length s1"
    and inv: "band_inv s1 s2 i row"
    and e: "Suc (length s1) div 2 + 1 < Suc i \<longrightarrow> e = length s2"
  shows "\<exists>row' e'. band_rows s1 s2 (Suc (length s1)) (Suc (length s2)) (Suc (length s1) div 2) (Suc i) e row
        = (row', e') \<and> band_inv s1 s2 (length s1) row' \<and> (i < length s1 \<longrightarrow> e' = length s2)"
  using i inv e
proof (induction "length s1 - i" arbitrary: i row e)
  case 0
  then have "i = length s1" by simp
  then have "band_rows s1 s2 (Suc (length s1)) (Suc (length s2)) (Suc (length s1) div 2) (Suc i) e row
        = (row, e)"
    by (subst band_rows.simps) simp
  then show ?case using 0 by simp
next
  case (Suc k)
  then have il: "i < length s1" by simp
  from band_row_correct[OF n il Suc.prems(2,3)] obtain row1 where r1:
    "band_row s1 s2 (Suc (length s1)) (Suc (length s2)) (Suc (length s1) div 2) (Suc i) e row
        = (row1, min (length s2) (length s2 + i - Suc (length s1) div 2))"
    "band_inv s1 s2 (Suc i) row1" by blast
  define e1 where "e1 = min (length s2) (length s2 + i - Suc (length s1) div 2)"
  have step: "band_rows s1 s2 (Suc (length s1)) (Suc (length s2)) (Suc (length s1) div 2) (Suc i) e row
      = band_rows s1 s2 (Suc (length s1)) (Suc (length s2)) (Suc (length s1) div 2) (Suc (Suc i)) e1 row1"
    using il by (subst band_rows.simps) (simp add: r1(1) e1_def)
  have e1: "Suc (length s1) div 2 + 1 < Suc (Suc i) \<longrightarrow> e1 = length s2"
  proof
    assume "Suc (length s1) div 2 + 1 < Suc (Suc i)"
    then have "length s2 \<le> length s2 + i - Suc (length s1) div 2" by linarith
    then show "e1 = length s2" by (simp add: e1_def min_def)
  qed
  have "\<exists>row' e'. band_rows s1 s2 (Suc (length s1)) (Suc (length s2)) (Suc (length s1) div 2) (Suc (Suc i)) e1 row1
        = (row', e') \<and> band_inv s1 s2 (length s1) row' \<and> (Suc i < length s1 \<longrightarrow> e' = length s2)"
  proof (rule Suc.hyps(1))
    show "k = length s1 - Suc i" using Suc.hyps(2) by simp
    show "Suc i \<le> length s1" using il by simp
    show "band_inv s1 s2 (Suc i) row1" by fact
    show "Suc (length s1) div 2 + 1 < Suc (Suc i) \<longrightarrow> e1 = length s2" by fact
  qed
  then obtain row' e' where r:
    "band_rows s1 s2 (Suc (length s1)) (Suc (length s2)) (Suc (length s1) div 2) (Suc (Suc i)) e1 row1
        = (row', e')" "band_inv s1 s2 (length s1) row'" "Suc i < length s1 \<longrightarrow> e' = length s2"
    by blast
  have "e' = length s2"
  proof (cases "Suc i < length s1")
    case True
    then show ?thesis using r(3) by simp
  next
    case False
    then have "Suc i = length s1" using il by simp
    then have "band_rows s1 s2 (Suc (length s1)) (Suc (length s2)) (Suc (length s1) div 2) (Suc (Suc i)) e1 row1
        = (row1, e1)"
      by (subst band_rows.simps) simp
    then have "e' = e1" using r(1) by simp
    have "Suc (length s1) div 2 \<le> i"
      using half_facts(4)[OF n(1)] \<open>Suc i = length s1\<close> by linarith
    then have "length s2 \<le> length s2 + i - Suc (length s1) div 2" by linarith
    then show ?thesis using \<open>e' = e1\<close> by (simp add: e1_def min_def)
  qed
  then show ?case unfolding step using r(1,2) by simp
qed

lemma distance_rows_unit:
  assumes n: "2 \<le> length s1" "length s1 \<le> length s2" and heap: "heap (Suc (length s2)) = Some f"
  shows "distance_rows xrows heap s1 s2 False = Inr (lev 1 s1 s2)"
proof -
  define h where "h = Suc (length s1) div 2"
  define row0 where "row0 = (init_row f (Suc (length s2)) (Suc (length s2) - h))[0 := Suc (length s1) - h - 1]"
  have hf: "h + 1 \<le> length s1" "1 \<le> h"
    using half_facts(3,4)[OF n(1)] by (simp_all add: h_def)
  have inv0: "band_inv s1 s2 0 row0"
    unfolding band_inv_def
  proof (intro conjI allI impI)
    show "length row0 = Suc (length s2)" by (simp add: row0_def)
    show "row0 ! 0 = length s1 - Suc (length s1) div 2" by (simp add: row0_def h_def)
  next
    fix j
    assume j: "1 \<le> j \<and> Suc 0 - (Suc (length s1) - Suc (length s1) div 2) \<le> j \<and>
          j \<le> length s2 \<and> j \<le> length s2 + 0 - Suc (length s1) div 2"
    have "h \<le> length s2" using hf n by linarith
    with j have "j < Suc (length s2) - h" "j \<noteq> 0" "j < Suc (length s2)"
      unfolding h_def by linarith+
    then have "row0 ! j = j" by (simp add: row0_def init_row_nth)
    moreover have "cell 1 s1 s2 0 j = j" using j by simp
    ultimately show "approx s1 s2 0 j (row0 ! j)" using approx_exact[of s1 s2 0 j] by simp
  qed
  from band_rows_correct[OF n _ inv0, of "length s2"] obtain row' e' where r:
    "band_rows s1 s2 (Suc (length s1)) (Suc (length s2)) h (Suc 0) (length s2) row0 = (row', e')"
    "band_inv s1 s2 (length s1) row'" "e' = length s2"
    using n(1) unfolding h_def by auto
  have "approx s1 s2 (length s1) (length s2) (row' ! length s2)"
  proof -
    have "1 \<le> length s2 \<and>
        Suc (length s1) - (Suc (length s1) - Suc (length s1) div 2) \<le> length s2 \<and>
        length s2 \<le> length s2 \<and> length s2 \<le> length s2 + length s1 - Suc (length s1) div 2"
      using n hf unfolding h_def by linarith
    then show ?thesis using r(2) unfolding band_inv_def by blast
  qed
  moreover have "good s1 s2 (length s1) (length s2)"
    using lev1_le_max[of s1 s2] n(2) by (simp add: good_def max_def)
  ultimately have "row' ! length s2 = lev 1 s1 s2" by (simp add: approx_def)
  then show ?thesis
    using heap r(1,3) by (simp add: distance_rows_def Let_def h_def row0_def)
qed

lemma lev_single2: "ys \<noteq> [] \<Longrightarrow> lev 2 [x] ys = length ys + 1 - 2 * (if x \<in> set ys then 1 else 0)"
  using lev_single[of ys 2 x] by (cases ys) auto

lemma lev_single1: "ys \<noteq> [] \<Longrightarrow> lev 1 [x] ys = length ys - (if x \<in> set ys then 1 else 0)"
  using lev_single[of ys 1 x] by (cases ys) auto

text \<open>Both functions compute the reference value whenever the row can be allocated.\<close>

lemma lev_edit_distance_lev:
  assumes "\<And>n. heap n \<noteq> None"
  shows "lev_edit_distance heap a b xcost = Inr (lev (if xcost then 2 else 1) a b)"
proof -
  obtain p1 p2 where p: "strip_common_prefix a b = (p1, p2)" by (cases "strip_common_prefix a b")
  obtain t1 t2 where t: "strip_common_suffix p1 p2 = (t1, t2)" by (cases "strip_common_suffix p1 p2")
  have l: "lev sc a b = lev sc t1 t2" for sc by (rule lev_strip[OF p t])
  define s1 where "s1 = (if length t1 > length t2 then t2 else t1)"
  define s2 where "s2 = (if length t1 > length t2 then t1 else t2)"
  have sw: "(if length t1 > length t2 then (t2, t1) else (t1, t2)) = (s1, s2)"
    by (simp add: s1_def s2_def)
  have ls: "lev sc t1 t2 = lev sc s1 s2" "length s1 \<le> length s2" for sc
    by (simp_all add: s1_def s2_def lev_sym)
  have unfold: "lev_edit_distance heap a b xcost =
      (if length t1 = 0 then Inr (length t2)
         else if length t2 = 0 then Inr (length t1)
         else if length s1 = 1 then
                (if xcost then Inr (length s2 + 1 - 2 * (if s1 ! 0 \<in> set s2 then 1 else 0))
                 else Inr (length s2 - (if s1 ! 0 \<in> set s2 then 1 else 0)))
              else distance_rows xcost_rows heap s1 s2 xcost)"
    unfolding lev_edit_distance_def p t sw Let_def prod.case by simp
  show ?thesis
  proof (cases "t1 = [] \<or> t2 = []")
    case True
    then show ?thesis unfolding unfold l by auto
  next
    case False
    then have ne: "s1 \<noteq> []" "s2 \<noteq> []" by (auto simp: s1_def s2_def)
    show ?thesis
    proof (cases "length s1 = 1")
      case True
      then obtain x where x: "s1 = [x]" by (cases s1) auto
      show ?thesis unfolding unfold l ls using False x ne lev_single1[of s2 x] lev_single2[of s2 x]
        by simp
    next
      case F2: False
      moreover have "length s1 \<noteq> 0" using ne by simp
      ultimately have n: "2 \<le> length s1" by linarith
      obtain f where f: "heap (Suc (length s2)) = Some f" using assms by blast
      show ?thesis unfolding unfold l ls
        using False F2 distance_rows_unit[of s1 s2 heap f xcost_rows, OF n ls(2) f]
          distance_rows_xcost[of heap s2 f s1, OF f ne(2)]
        by (cases xcost) simp_all
    qed
  qed
qed

lemma lev_u_edit_distance_lev:
  assumes "\<And>n. heap n \<noteq> None"
  shows "lev_u_edit_distance heap a b xcost = Inr (lev (if xcost then 2 else 1) a b)"
proof -
  obtain p1 p2 where p: "strip_common_prefix a b = (p1, p2)" by (cases "strip_common_prefix a b")
  obtain t1 t2 where t: "strip_common_suffix p1 p2 = (t1, t2)" by (cases "strip_common_suffix p1 p2")
  have l: "lev sc a b = lev sc t1 t2" for sc by (rule lev_strip[OF p t])
  define s1 where "s1 = (if length t1 > length t2 then t2 else t1)"
  define s2 where "s2 = (if length t1 > length t2 then t1 else t2)"
  have sw: "(if length t1 > length t2 then (t2, t1) else (t1, t2)) = (s1, s2)"
    by (simp add: s1_def s2_def)
  have ls: "lev sc t1 t2 = lev sc s1 s2" "length s1 \<le> length s2" for sc
    by (simp_all add: s1_def s2_def lev_sym)
  have unfold: "lev_u_edit_distance heap a b xcost =
      (if length t1 = 0 then Inr (length t2)
         else if length t2 = 0 then Inr (length t1)
         else if length s1 = 1 then
                (if s1 ! 0 \<in> set s2 then Inr (length s2 - 1)
                 else Inr (length s2 + (if xcost then 1 else 0)))
              else distance_rows u_xcost_rows heap s1 s2 xcost)"
    unfolding lev_u_edit_distance_def p t sw Let_def prod.case by simp
  show ?thesis
  proof (cases "t1 = [] \<or> t2 = []")
    case True
    then show ?thesis unfolding unfold l by auto
  next
    case False
    then have ne: "s1 \<noteq> []" "s2 \<noteq> []" by (auto simp: s1_def s2_def)
    show ?thesis
    proof (cases "length s1 = 1")
      case True
      then obtain x where x: "s1 = [x]" by (cases s1) auto
      show ?thesis unfolding unfold l ls using False x ne lev_single1[of s2 x] lev_single2[of s2 x]
        by simp
    next
      case F2: False
      moreover have "length s1 \<noteq> 0" using ne by simp
      ultimately have n: "2 \<le> length s1" by linarith
      obtain f where f: "heap (Suc (length s2)) = Some f" using assms by blast
      show ?thesis unfolding unfold l ls
        using False F2 distance_rows_unit[of s1 s2 heap f u_xcost_rows, OF n ls(2) f]
          distance_rows_u_xcost[of heap s2 f s1, OF f ne(2)]
        by (cases xcost) simp_all
    qed
  qed
qed

section \<open>Claims about the distance kernel\<close>

text \<open>
  C1. Called with \<^verbatim>\<open>xcost == 0\<close>, \<^verbatim>\<open>lev_edit_distance\<close> and \<^verbatim>\<open>lev_u_edit_distance\<close> return the
  classical Levenshtein distance: the minimum number of insertions, deletions and
  substitutions of an edit script converting the first string into the second. The
  stripping of the common prefix and suffix, the swap of the arguments, the \<^verbatim>\<open>len1 == 1\<close>
  case and the skipped corner triangles do not change the value, and the cells of the row
  that the program never initialises do not influence it (\<open>heap\<close> is arbitrary but for
  never failing).
\<close>

theorem C1_unit_cost_distance_is_levenshtein:
  assumes "\<And>n. heap n \<noteq> None"
  shows "(\<exists>d. lev_edit_distance heap a b False = Inr d \<and> min_edit_cost 1 a b d) \<and>
         (\<exists>d. lev_u_edit_distance heap u v False = Inr d \<and> min_edit_cost 1 u v d)"
  using lev_edit_distance_lev[of heap a b False, OF assms]
    lev_u_edit_distance_lev[of heap u v False, OF assms]
    min_edit_cost_lev[of 1 a b] min_edit_cost_lev[of 1 u v]
  by simp

theorem C1_unit_cost_distance_witness:
  "(\<forall>n. (\<lambda>n. Some (\<lambda>k. 0::nat)) n \<noteq> None) \<and>
   lev_edit_distance (\<lambda>n. Some (\<lambda>k. 0)) ''abcd'' ''bcda'' False = Inr 2 \<and>
   min_edit_cost 1 ''abcd'' ''bcda'' 2 \<and>
   lev_u_edit_distance (\<lambda>n. Some (\<lambda>k. 0)) [1::nat, 2, 3] [3, 1, 2, 1] False = Inr 2 \<and>
   min_edit_cost 1 [1::nat, 2, 3] [3, 1, 2, 1] 2"
proof -
  have h: "\<And>n. (\<lambda>n. Some (\<lambda>k. 0::nat)) n \<noteq> None" by simp
  have e1: "lev_edit_distance (\<lambda>n. Some (\<lambda>k. 0)) ''abcd'' ''bcda'' False = Inr 2"
    by code_simp
  have e2: "lev_u_edit_distance (\<lambda>n. Some (\<lambda>k. 0)) [1::nat, 2, 3] [3, 1, 2, 1] False = Inr 2"
    by code_simp
  from C1_unit_cost_distance_is_levenshtein[of "\<lambda>n. Some (\<lambda>k. 0)" "''abcd''" "''bcda''"
      "[1::nat, 2, 3]" "[3, 1, 2, 1]", OF h] e1 e2
  show ?thesis by simp
qed

text \<open>
  C3. Called with \<^verbatim>\<open>xcost != 0\<close>, both functions return the minimum total cost of an edit
  script in which an insertion and a deletion cost 1 and a substitution costs 2.
\<close>

theorem C3_xcost_distance_is_minimum:
  assumes "\<And>n. heap n \<noteq> None"
  shows "(\<exists>d. lev_edit_distance heap a b True = Inr d \<and> min_edit_cost 2 a b d) \<and>
         (\<exists>d. lev_u_edit_distance heap u v True = Inr d \<and> min_edit_cost 2 u v d)"
  using lev_edit_distance_lev[of heap a b True, OF assms]
    lev_u_edit_distance_lev[of heap u v True, OF assms]
    min_edit_cost_lev[of 2 a b] min_edit_cost_lev[of 2 u v]
  by simp

theorem C3_xcost_distance_witness:
  "(\<forall>n. (\<lambda>n. Some (\<lambda>k. 0::nat)) n \<noteq> None) \<and>
   lev_edit_distance (\<lambda>n. Some (\<lambda>k. 0)) ''abcd'' ''bxda'' True = Inr 4 \<and>
   min_edit_cost 2 ''abcd'' ''bxda'' 4 \<and>
   lev_u_edit_distance (\<lambda>n. Some (\<lambda>k. 0)) [1::nat, 2, 3] [3, 1, 2, 1] True = Inr 3 \<and>
   min_edit_cost 2 [1::nat, 2, 3] [3, 1, 2, 1] 3"
proof -
  have h: "\<And>n. (\<lambda>n. Some (\<lambda>k. 0::nat)) n \<noteq> None" by simp
  have e1: "lev_edit_distance (\<lambda>n. Some (\<lambda>k. 0)) ''abcd'' ''bxda'' True = Inr 4"
    by code_simp
  have e2: "lev_u_edit_distance (\<lambda>n. Some (\<lambda>k. 0)) [1::nat, 2, 3] [3, 1, 2, 1] True = Inr 3"
    by code_simp
  from C3_xcost_distance_is_minimum[of "\<lambda>n. Some (\<lambda>k. 0)" "''abcd''" "''bxda''"
      "[1::nat, 2, 3]" "[3, 1, 2, 1]", OF h] e1 e2
  show ?thesis by simp
qed

section \<open>Correctness of the search for edit operations\<close>

subsection \<open>The cost matrix\<close>

lemma init_matrix_length [simp]: "length (init_matrix f len1 len2) = len1 * len2"
  by (simp add: init_matrix_def)

lemma init_matrix_row0: "c < len2 \<Longrightarrow> 0 < len1 \<Longrightarrow> init_matrix f len1 len2 ! c = c"
proof -
  assume c: "c < len2" and l: "0 < len1"
  have "c < len1 * len2" using c l by (metis less_le_trans mult.commute le_add1 mult_Suc_right Suc_pred)
  then show ?thesis using c by (simp add: init_matrix_def)
qed

lemma init_matrix_col0: "r < len1 \<Longrightarrow> 0 < len2 \<Longrightarrow> init_matrix f len1 len2 ! (r * len2) = r"
proof -
  assume r: "r < len1" and l: "0 < len2"
  have "r * len2 < len1 * len2" using r l by simp
  then show ?thesis using l by (cases "r = 0") (simp_all add: init_matrix_def)
qed

lemma matrix_sweep_correct:
  assumes "i < length s1" "length matrix = Suc (length s1) * Suc (length s2)"
    "1 \<le> c" "c \<le> Suc (length s2)" "x = cell 1 s1 s2 (Suc i) (c - 1)"
    "\<forall>k. k \<le> length s2 \<longrightarrow> matrix ! (i * Suc (length s2) + k) = cell 1 s1 s2 i k"
    "\<forall>k. 1 \<le> k \<and> k < c \<longrightarrow> matrix ! (Suc i * Suc (length s2) + k) = cell 1 s1 s2 (Suc i) k"
  shows "length (matrix_sweep (s1 ! i) s2 (Suc i * Suc (length s2) + Suc (length s2) - 1) matrix
           (i * Suc (length s2) + (c - 1)) (Suc i * Suc (length s2) + c) (c - 1) x) = length matrix \<and>
     (\<forall>k. 1 \<le> k \<and> k \<le> length s2 \<longrightarrow>
        matrix_sweep (s1 ! i) s2 (Suc i * Suc (length s2) + Suc (length s2) - 1) matrix
           (i * Suc (length s2) + (c - 1)) (Suc i * Suc (length s2) + c) (c - 1) x
          ! (Suc i * Suc (length s2) + k) = cell 1 s1 s2 (Suc i) k) \<and>
     (\<forall>q. q < Suc i * Suc (length s2) + c \<or> Suc (Suc i) * Suc (length s2) \<le> q \<longrightarrow>
        matrix_sweep (s1 ! i) s2 (Suc i * Suc (length s2) + Suc (length s2) - 1) matrix
           (i * Suc (length s2) + (c - 1)) (Suc i * Suc (length s2) + c) (c - 1) x ! q = matrix ! q)"
  using assms
proof (induction "Suc (length s2) - c" arbitrary: matrix c x)
  case 0
  then have c: "c = Suc (length s2)" by simp
  have "matrix_sweep (s1 ! i) s2 (Suc i * Suc (length s2) + Suc (length s2) - 1) matrix
           (i * Suc (length s2) + (c - 1)) (Suc i * Suc (length s2) + c) (c - 1) x = matrix"
    unfolding c by (subst matrix_sweep.simps) simp
  then show ?case using 0 c by auto
next
  case (Suc n)
  define L where "L = Suc (length s2)"
  define base where "base = Suc i * L"
  define pbase where "pbase = i * L"
  have bp: "base = pbase + L" by (simp add: base_def pbase_def)
  from Suc have cl: "c \<le> length s2" "1 \<le> c" by simp_all
  then obtain j where j: "c = Suc j" "j < length s2" by (cases c) auto
  define x3 where "x3 = min (min (x + 1) (matrix ! (pbase + j) + (if s1 ! i \<noteq> s2 ! j then 1 else 0)))
     (matrix ! (pbase + j + 1) + 1)"
  have d: "matrix ! (pbase + j) = cell 1 s1 s2 i j" using Suc.prems(6) j by (simp add: pbase_def L_def)
  have u: "matrix ! (pbase + j + 1) = cell 1 s1 s2 i (Suc j)"
    using Suc.prems(6)[rule_format, of "Suc j"] j by (simp add: pbase_def L_def)
  have x3: "x3 = cell 1 s1 s2 (Suc i) (Suc j)"
    unfolding x3_def d u using Suc.prems(5) j cell_Suc_Suc[OF Suc.prems(1) j(2), of 1]
    by (simp add: min.commute min.left_commute)
  have step: "matrix_sweep (s1 ! i) s2 (base + L - 1) matrix (pbase + (c - 1)) (base + c) (c - 1) x =
      matrix_sweep (s1 ! i) s2 (base + L - 1) (matrix[base + c := x3]) (pbase + (Suc c - 1))
        (base + Suc c) (Suc c - 1) x3"
    using cl j by (subst matrix_sweep.simps) (simp add: x3_def Let_def if_gt_min L_def)
  have inb: "base + c < length matrix"
  proof -
    have "base + c < base + L" using cl by (simp add: L_def)
    also have "\<dots> = Suc (Suc i) * L" by (simp add: base_def)
    also have "\<dots> \<le> Suc (length s1) * L"
      using Suc.prems(1) by (intro mult_le_mono1) simp
    finally show ?thesis using Suc.prems(2) by (simp add: L_def)
  qed
  let ?m = "matrix_sweep (s1 ! i) s2 (base + L - 1) (matrix[base + c := x3]) (pbase + (Suc c - 1))
        (base + Suc c) (Suc c - 1) x3"
  have IH: "length ?m = length (matrix[base + c := x3]) \<and>
     (\<forall>k. 1 \<le> k \<and> k \<le> length s2 \<longrightarrow> ?m ! (base + k) = cell 1 s1 s2 (Suc i) k) \<and>
     (\<forall>q. q < base + Suc c \<or> Suc (Suc i) * L \<le> q \<longrightarrow> ?m ! q = matrix[base + c := x3] ! q)"
    unfolding base_def pbase_def L_def
  proof (rule Suc.hyps(1))
    show "n = Suc (length s2) - Suc c" using Suc.hyps(2) by simp
    show "i < length s1" by fact
    show "length (matrix[Suc i * Suc (length s2) + c := x3]) = Suc (length s1) * Suc (length s2)"
      using Suc.prems(2) by simp
    show "1 \<le> Suc c" by simp
    show "Suc c \<le> Suc (length s2)" using cl by simp
    show "x3 = cell 1 s1 s2 (Suc i) (Suc c - 1)" using x3 j by simp
    show "\<forall>k. k \<le> length s2 \<longrightarrow>
        matrix[Suc i * Suc (length s2) + c := x3] ! (i * Suc (length s2) + k) = cell 1 s1 s2 i k"
      using Suc.prems(6) by (simp add: nth_list_update)
    show "\<forall>k. 1 \<le> k \<and> k < Suc c \<longrightarrow>
        matrix[Suc i * Suc (length s2) + c := x3] ! (Suc i * Suc (length s2) + k) = cell 1 s1 s2 (Suc i) k"
    proof (intro allI impI)
      fix k assume k: "1 \<le> k \<and> k < Suc c"
      show "matrix[Suc i * Suc (length s2) + c := x3] ! (Suc i * Suc (length s2) + k) = cell 1 s1 s2 (Suc i) k"
      proof (cases "k = c")
        case True
        then show ?thesis using inb x3 j by (simp add: base_def L_def)
      next
        case False
        then show ?thesis using k Suc.prems(7) by (simp add: nth_list_update)
      qed
    qed
  qed
  have "\<forall>q. q < base + c \<or> Suc (Suc i) * L \<le> q \<longrightarrow> ?m ! q = matrix ! q"
  proof (intro allI impI)
    fix q assume q: "q < base + c \<or> Suc (Suc i) * L \<le> q"
    have "base + c < Suc (Suc i) * L" using cl by (simp add: base_def L_def)
    with q have "q \<noteq> base + c" by auto
    from q have "q < base + Suc c \<or> Suc (Suc i) * L \<le> q" by auto
    with IH have "?m ! q = matrix[base + c := x3] ! q" by blast
    also have "\<dots> = matrix ! q" using \<open>q \<noteq> base + c\<close> by simp
    finally show "?m ! q = matrix ! q" .
  qed
  with IH show ?case
    unfolding step[unfolded base_def pbase_def L_def] base_def pbase_def L_def by simp
qed

definition rows_ok :: "'a list \<Rightarrow> 'a list \<Rightarrow> nat \<Rightarrow> nat list \<Rightarrow> bool" where
  "rows_ok s1 s2 i matrix \<longleftrightarrow>
     length matrix = Suc (length s1) * Suc (length s2) \<and>
     (\<forall>r k. r < i \<and> k \<le> length s2 \<longrightarrow> matrix ! (r * Suc (length s2) + k) = cell 1 s1 s2 r k) \<and>
     (\<forall>r. r \<le> length s1 \<longrightarrow> matrix ! (r * Suc (length s2)) = r)"

lemma rows_ok_init: "rows_ok s1 s2 1 (init_matrix f (Suc (length s1)) (Suc (length s2)))"
  unfolding rows_ok_def
proof (intro conjI allI impI)
  show "length (init_matrix f (Suc (length s1)) (Suc (length s2))) = Suc (length s1) * Suc (length s2)"
    by simp
next
  fix r k :: nat assume "r < 1 \<and> k \<le> length s2"
  then show "init_matrix f (Suc (length s1)) (Suc (length s2)) ! (r * Suc (length s2) + k) = cell 1 s1 s2 r k"
    using init_matrix_row0[of k "Suc (length s2)" "Suc (length s1)" f] by simp
next
  fix r :: nat assume "r \<le> length s1"
  then show "init_matrix f (Suc (length s1)) (Suc (length s2)) ! (r * Suc (length s2)) = r"
    using init_matrix_col0[of r "Suc (length s1)" "Suc (length s2)" f] by simp
qed

lemma matrix_rows_correct:
  assumes "1 \<le> i" "i \<le> Suc (length s1)" "rows_ok s1 s2 i matrix"
  shows "rows_ok s1 s2 (Suc (length s1))
           (matrix_rows s1 s2 (Suc (length s1)) (Suc (length s2)) i matrix)"
  using assms
proof (induction "Suc (length s1) - i" arbitrary: i matrix)
  case 0
  then have "i = Suc (length s1)" by simp
  then show ?case using 0 by (subst matrix_rows.simps) simp
next
  case (Suc n)
  define L where "L = Suc (length s2)"
  from Suc obtain r where r: "i = Suc r" "r < length s1" by (cases i) auto
  have len: "length matrix = Suc (length s1) * L"
    and cells: "\<And>q k. q < i \<Longrightarrow> k \<le> length s2 \<Longrightarrow> matrix ! (q * L + k) = cell 1 s1 s2 q k"
    and col0: "\<And>q. q \<le> length s1 \<Longrightarrow> matrix ! (q * L) = q"
    using Suc.prems(3) unfolding rows_ok_def L_def by blast+
  let ?m = "matrix_sweep (s1 ! r) s2 (Suc r * L + L - 1) matrix (r * L + (1 - 1)) (Suc r * L + 1) (1 - 1) i"
  have sw: "length ?m = length matrix \<and>
     (\<forall>k. 1 \<le> k \<and> k \<le> length s2 \<longrightarrow> ?m ! (Suc r * L + k) = cell 1 s1 s2 (Suc r) k) \<and>
     (\<forall>q. q < Suc r * L + 1 \<or> Suc (Suc r) * L \<le> q \<longrightarrow> ?m ! q = matrix ! q)"
    unfolding L_def
  proof (rule matrix_sweep_correct)
    show "r < length s1" by fact
    show "length matrix = Suc (length s1) * Suc (length s2)" using len by (simp add: L_def)
    show "i = cell 1 s1 s2 (Suc r) (1 - 1)" using r by simp
    show "\<forall>k. k \<le> length s2 \<longrightarrow> matrix ! (r * Suc (length s2) + k) = cell 1 s1 s2 r k"
      using cells[of r] r by (simp add: L_def)
  qed simp_all
  have step: "matrix_rows s1 s2 (Suc (length s1)) (Suc (length s2)) i matrix =
      matrix_rows s1 s2 (Suc (length s1)) (Suc (length s2)) (Suc i) ?m"
    using r by (subst matrix_rows.simps) (simp add: L_def)
  have "rows_ok s1 s2 (Suc i) ?m"
    unfolding rows_ok_def L_def[symmetric]
  proof (intro conjI allI impI)
    show "length ?m = Suc (length s1) * L" using sw len by simp
  next
    fix q k assume qk: "q < Suc i \<and> k \<le> length s2"
    show "?m ! (q * L + k) = cell 1 s1 s2 q k"
    proof (cases "q < i")
      case True
      then have "q * L + L \<le> i * L" using mult_le_mono1[of "Suc q" i L] by simp
      then have "q * L + k < Suc r * L + 1" using qk r by (simp add: L_def)
      then have "?m ! (q * L + k) = matrix ! (q * L + k)" using sw by blast
      then show ?thesis using cells[OF True] qk by simp
    next
      case False
      then have q: "q = Suc r" using qk r by simp
      show ?thesis
      proof (cases "k = 0")
        case True
        have "?m ! (Suc r * L) = matrix ! (Suc r * L)" using sw by simp
        then show ?thesis using True q col0[of "Suc r"] r by simp
      next
        case False
        then show ?thesis using sw q qk by simp
      qed
    qed
  next
    fix q assume q: "q \<le> length s1"
    have "q * L < Suc r * L + 1 \<or> Suc (Suc r) * L \<le> q * L"
    proof (cases "q \<le> Suc r")
      case True
      then have "q * L \<le> Suc r * L" by (rule mult_le_mono1)
      then show ?thesis by simp
    next
      case False
      then have "Suc (Suc r) \<le> q" by simp
      then have "Suc (Suc r) * L \<le> q * L" by (rule mult_le_mono1)
      then show ?thesis by simp
    qed
    then have "?m ! (q * L) = matrix ! (q * L)" using sw by blast
    then show "?m ! (q * L) = q" using col0[OF q] by simp
  qed
  then have "rows_ok s1 s2 (Suc (length s1))
           (matrix_rows s1 s2 (Suc (length s1)) (Suc (length s2)) (Suc i) ?m)"
    using Suc.hyps(2) r by (intro Suc.hyps(1)) simp_all
  then show ?case unfolding step .
qed

lemma matrix_ok:
  "rows_ok s1 s2 (Suc (length s1))
     (matrix_rows s1 s2 (Suc (length s1)) (Suc (length s2)) 1
        (init_matrix f (Suc (length s1)) (Suc (length s2))))"
  by (rule matrix_rows_correct[OF _ _ rows_ok_init]) simp_all

subsection \<open>Applying the operations found so far\<close>

text \<open>
  \<open>tail_ok a b off i j ops\<close>: the operations found so far turn what is left of \<open>a\<close> behind
  source position \<open>i + off\<close> into what is left of \<open>b\<close> behind \<open>j + off\<close>, from any earlier
  source position, within every block that is large enough.
\<close>

definition tail_ok :: "'a list \<Rightarrow> 'a list \<Rightarrow> nat \<Rightarrow> nat \<Rightarrow> nat \<Rightarrow> LevEditOp list \<Rightarrow> bool" where
  "tail_ok a b off i j ops \<longleftrightarrow>
     (\<forall>sp d cap. sp \<le> i + off \<and> length d + (length a - sp) + length ops \<le> cap \<longrightarrow>
        (\<exists>sp' d'. apply_ops cap a b ops sp d = Inr (sp', d') \<and> sp' \<le> length a \<and>
            length d' + (length a - sp') \<le> cap \<and>
            d' @ drop sp' a = d @ take (i + off - sp) (drop sp a) @ drop (j + off) b))"

lemma tail_ok_Nil:
  assumes "a = pre @ s1 @ q" "b = pre @ s2 @ q"
  shows "tail_ok a b (length pre) (length s1) (length s2) []"
  unfolding tail_ok_def
proof (intro allI impI)
  fix sp cap :: nat and d :: "'a list"
  assume h: "sp \<le> length s1 + length pre \<and> length d + (length a - sp) + length ([]::LevEditOp list) \<le> cap"
  have "drop sp a = take (length s1 + length pre - sp) (drop sp a) @ drop (length s1 + length pre - sp) (drop sp a)"
    by (rule append_take_drop_id[symmetric])
  moreover have "drop (length s1 + length pre - sp) (drop sp a) = q"
    using h assms(1) by simp
  moreover have "drop (length s2 + length pre) b = q" using assms(2) by simp
  ultimately have "d @ drop sp a = d @ take (length s1 + length pre - sp) (drop sp a) @ drop (length s2 + length pre) b"
    by simp
  moreover have "sp \<le> length a" using h assms(1) by simp
  ultimately show "\<exists>sp' d'. apply_ops cap a b [] sp d = Inr (sp', d') \<and> sp' \<le> length a \<and>
            length d' + (length a - sp') \<le> cap \<and>
            d' @ drop sp' a = d @ take (length s1 + length pre - sp) (drop sp a) @ drop (length s2 + length pre) b"
    using h by simp
qed

lemma tail_ok_insert:
  assumes t: "tail_ok a b off i (Suc j) ops" and la: "i + off \<le> length a" and lb: "j + off < length b"
  shows "tail_ok a b off i j (\<lparr>type = LEV_EDIT_INSERT, spos = i + off, dpos = j + off\<rparr> # ops)"
  unfolding tail_ok_def
proof (intro allI impI)
  fix sp cap :: nat and d :: "'a list"
  assume h: "sp \<le> i + off \<and> length d + (length a - sp) +
     length (\<lparr>type = LEV_EDIT_INSERT, spos = i + off, dpos = j + off\<rparr> # ops) \<le> cap"
  then have h1: "sp \<le> i + off" and h2: "length d + (length a - sp) + Suc (length ops) \<le> cap"
    by simp_all
  define d1 where "d1 = d @ take (i + off - sp) (drop sp a)"
  have l1: "length d1 = length d + (i + off - sp)" using h1 la by (simp add: d1_def)
  have c: "length d + (i + off - sp) \<le> cap" "length d + (i + off - sp) + 1 \<le> cap"
    using h1 h2 la by linarith+
  have ev: "apply_ops cap a b (\<lparr>type = LEV_EDIT_INSERT, spos = i + off, dpos = j + off\<rparr> # ops) sp d
      = apply_ops cap a b ops (i + off) (d1 @ [b ! (j + off)])"
    using h1 la lb c by (simp add: d1_def Let_def)
  have "i + off \<le> i + off" by simp
  moreover have "length (d1 @ [b ! (j + off)]) + (length a - (i + off)) + length ops \<le> cap"
    using h1 h2 la l1 by (simp, linarith?)
  ultimately obtain sp' d' where r:
    "apply_ops cap a b ops (i + off) (d1 @ [b ! (j + off)]) = Inr (sp', d')"
    "sp' \<le> length a" "length d' + (length a - sp') \<le> cap"
    "d' @ drop sp' a = (d1 @ [b ! (j + off)]) @
       take (i + off - (i + off)) (drop (i + off) a) @ drop (Suc j + off) b"
    using t unfolding tail_ok_def by blast
  have "d' @ drop sp' a = d @ take (i + off - sp) (drop sp a) @ drop (j + off) b"
    using r(4) Cons_nth_drop_Suc[OF lb] by (simp add: d1_def)
  then show "\<exists>sp' d'. apply_ops cap a b (\<lparr>type = LEV_EDIT_INSERT, spos = i + off, dpos = j + off\<rparr> # ops) sp d
        = Inr (sp', d') \<and> sp' \<le> length a \<and> length d' + (length a - sp') \<le> cap \<and>
        d' @ drop sp' a = d @ take (i + off - sp) (drop sp a) @ drop (j + off) b"
    unfolding ev using r(1,2,3) by blast
qed

lemma tail_ok_delete:
  assumes t: "tail_ok a b off (Suc i) j ops" and la: "i + off < length a"
  shows "tail_ok a b off i j (\<lparr>type = LEV_EDIT_DELETE, spos = i + off, dpos = j + off\<rparr> # ops)"
  unfolding tail_ok_def
proof (intro allI impI)
  fix sp cap :: nat and d :: "'a list"
  assume h: "sp \<le> i + off \<and> length d + (length a - sp) +
     length (\<lparr>type = LEV_EDIT_DELETE, spos = i + off, dpos = j + off\<rparr> # ops) \<le> cap"
  then have h1: "sp \<le> i + off" and h2: "length d + (length a - sp) + Suc (length ops) \<le> cap"
    by simp_all
  define d1 where "d1 = d @ take (i + off - sp) (drop sp a)"
  have l1: "length d1 = length d + (i + off - sp)" using h1 la by (simp add: d1_def)
  have c: "length d + (i + off - sp) \<le> cap" "length d + (i + off - sp) + 1 \<le> cap"
    using h1 h2 la by linarith+
  have ev: "apply_ops cap a b (\<lparr>type = LEV_EDIT_DELETE, spos = i + off, dpos = j + off\<rparr> # ops) sp d
      = apply_ops cap a b ops (Suc (i + off)) (d1)"
    using h1 la c by (simp add: d1_def Let_def)
  have "Suc (i + off) \<le> Suc i + off" by simp
  moreover have "length (d1) + (length a - (Suc (i + off))) + length ops \<le> cap"
    using h1 h2 la l1 by (simp, linarith?)
  ultimately obtain sp' d' where r:
    "apply_ops cap a b ops (Suc (i + off)) (d1) = Inr (sp', d')"
    "sp' \<le> length a" "length d' + (length a - sp') \<le> cap"
    "d' @ drop sp' a = (d1) @
       take (Suc i + off - (Suc (i + off))) (drop (Suc (i + off)) a) @ drop (j + off) b"
    using t unfolding tail_ok_def by blast
  have "d' @ drop sp' a = d @ take (i + off - sp) (drop sp a) @ drop (j + off) b"
    using r(4) refl by (simp add: d1_def)
  then show "\<exists>sp' d'. apply_ops cap a b (\<lparr>type = LEV_EDIT_DELETE, spos = i + off, dpos = j + off\<rparr> # ops) sp d
        = Inr (sp', d') \<and> sp' \<le> length a \<and> length d' + (length a - sp') \<le> cap \<and>
        d' @ drop sp' a = d @ take (i + off - sp) (drop sp a) @ drop (j + off) b"
    unfolding ev using r(1,2,3) by blast
qed

lemma tail_ok_replace:
  assumes t: "tail_ok a b off (Suc i) (Suc j) ops" and la: "i + off < length a" and lb: "j + off < length b"
  shows "tail_ok a b off i j (\<lparr>type = LEV_EDIT_REPLACE, spos = i + off, dpos = j + off\<rparr> # ops)"
  unfolding tail_ok_def
proof (intro allI impI)
  fix sp cap :: nat and d :: "'a list"
  assume h: "sp \<le> i + off \<and> length d + (length a - sp) +
     length (\<lparr>type = LEV_EDIT_REPLACE, spos = i + off, dpos = j + off\<rparr> # ops) \<le> cap"
  then have h1: "sp \<le> i + off" and h2: "length d + (length a - sp) + Suc (length ops) \<le> cap"
    by simp_all
  define d1 where "d1 = d @ take (i + off - sp) (drop sp a)"
  have l1: "length d1 = length d + (i + off - sp)" using h1 la by (simp add: d1_def)
  have c: "length d + (i + off - sp) \<le> cap" "length d + (i + off - sp) + 1 \<le> cap"
    using h1 h2 la by linarith+
  have ev: "apply_ops cap a b (\<lparr>type = LEV_EDIT_REPLACE, spos = i + off, dpos = j + off\<rparr> # ops) sp d
      = apply_ops cap a b ops (Suc (i + off)) (d1 @ [b ! (j + off)])"
    using h1 la lb c by (simp add: d1_def Let_def)
  have "Suc (i + off) \<le> Suc i + off" by simp
  moreover have "length (d1 @ [b ! (j + off)]) + (length a - (Suc (i + off))) + length ops \<le> cap"
    using h1 h2 la l1 by (simp, linarith?)
  ultimately obtain sp' d' where r:
    "apply_ops cap a b ops (Suc (i + off)) (d1 @ [b ! (j + off)]) = Inr (sp', d')"
    "sp' \<le> length a" "length d' + (length a - sp') \<le> cap"
    "d' @ drop sp' a = (d1 @ [b ! (j + off)]) @
       take (Suc i + off - (Suc (i + off))) (drop (Suc (i + off)) a) @ drop (Suc j + off) b"
    using t unfolding tail_ok_def by blast
  have "d' @ drop sp' a = d @ take (i + off - sp) (drop sp a) @ drop (j + off) b"
    using r(4) Cons_nth_drop_Suc[OF lb] by (simp add: d1_def)
  then show "\<exists>sp' d'. apply_ops cap a b (\<lparr>type = LEV_EDIT_REPLACE, spos = i + off, dpos = j + off\<rparr> # ops) sp d
        = Inr (sp', d') \<and> sp' \<le> length a \<and> length d' + (length a - sp') \<le> cap \<and>
        d' @ drop sp' a = d @ take (i + off - sp) (drop sp a) @ drop (j + off) b"
    unfolding ev using r(1,2,3) by blast
qed

lemma tail_ok_keep:
  assumes t: "tail_ok a b off (Suc i) (Suc j) ops" and la: "i + off < length a"
    and lb: "j + off < length b" and eq: "a ! (i + off) = b ! (j + off)"
  shows "tail_ok a b off i j ops"
  unfolding tail_ok_def
proof (intro allI impI)
  fix sp cap :: nat and d :: "'a list"
  assume h: "sp \<le> i + off \<and> length d + (length a - sp) + length ops \<le> cap"
  then have h1: "sp \<le> i + off" and h2: "length d + (length a - sp) + length ops \<le> cap"
    by simp_all
  have "sp \<le> Suc i + off" using h1 by simp
  with h2 obtain sp' d' where r: "apply_ops cap a b ops sp d = Inr (sp', d')"
    "sp' \<le> length a" "length d' + (length a - sp') \<le> cap"
    "d' @ drop sp' a = d @ take (Suc i + off - sp) (drop sp a) @ drop (Suc j + off) b"
    using t unfolding tail_ok_def by blast
  have s: "Suc i + off - sp = Suc (i + off - sp)" using h1 by linarith
  have "i + off - sp < length (drop sp a)" using h1 la by (simp, linarith?)
  then have "take (Suc (i + off - sp)) (drop sp a) = take (i + off - sp) (drop sp a) @ [drop sp a ! (i + off - sp)]"
    by (rule take_Suc_conv_app_nth)
  moreover have "drop sp a ! (i + off - sp) = a ! (i + off)" using h1 la by simp
  ultimately have "take (Suc i + off - sp) (drop sp a) = take (i + off - sp) (drop sp a) @ [a ! (i + off)]"
    unfolding s by simp
  then have "d' @ drop sp' a = d @ take (i + off - sp) (drop sp a) @ drop (j + off) b"
    using r(4) eq Cons_nth_drop_Suc[OF lb] by simp
  then show "\<exists>sp' d'. apply_ops cap a b ops sp d = Inr (sp', d') \<and> sp' \<le> length a \<and>
        length d' + (length a - sp') \<le> cap \<and>
        d' @ drop sp' a = d @ take (i + off - sp) (drop sp a) @ drop (j + off) b"
    using r(1,2,3) by blast
qed

subsection \<open>The way back never gets lost\<close>

lemma cell1_diag_le:
  "i < length s1 \<Longrightarrow> j < length s2 \<Longrightarrow> cell 1 s1 s2 (Suc i) (Suc j) \<le> Suc (cell 1 s1 s2 i j)"
  using cell1_le(3)[of i s1 j s2] by (simp split: if_splits)

lemma find_way_back_correct:
  assumes ab: "a = pre @ s1 @ q" "b = pre @ s2 @ q"
    and m: "rows_ok s1 s2 (Suc (length s1)) matrix"
    and ij: "i \<le> length s1" "j \<le> length s2"
    and pos: "pos = cell 1 s1 s2 i j"
    and dneg: "dir < 0 \<longrightarrow> j < length s2 \<and> cell 1 s1 s2 i (Suc j) = Suc (cell 1 s1 s2 i j)"
    and dpos: "dir > 0 \<longrightarrow> i < length s1 \<and> cell 1 s1 s2 (Suc i) j = Suc (cell 1 s1 s2 i j)"
    and t: "tail_ok a b (length pre) i j ops"
  shows "\<exists>ops'. find_way_back s1 s2 (length pre) (length pre) matrix (Suc (length s2)) i j
             (i * Suc (length s2) + j) pos dir ops = Inr ops' \<and>
           tail_ok a b (length pre) 0 0 ops' \<and> length ops' = length ops + pos"
  using ij pos dneg dpos t
proof (induction "i + j" arbitrary: i j pos dir ops rule: less_induct)
  case less
  define L where "L = Suc (length s2)"
  define off where "off = length pre"
  define M where "M = cell 1 s1 s2"
  have mat: "matrix ! (r * L + k) = M r k" if "r \<le> length s1" "k \<le> length s2" for r k
    using m that unfolding rows_ok_def L_def M_def by simp
  have la: "length a = off + length s1 + length q" and lb: "length b = off + length s2 + length q"
    using ab by (simp_all add: off_def)
  have na: "a ! (r + off) = s1 ! r" if "r < length s1" for r
    using that ab(1) by (simp add: off_def nth_append)
  have nb: "b ! (k + off) = s2 ! k" if "k < length s2" for k
    using that ab(2) by (simp add: off_def nth_append)
  have pos: "pos = M i j" using less.prems(3) by (simp add: M_def)
  have t: "tail_ok a b off i j ops" using less.prems(6) by (simp add: off_def)
  let ?fwb = "find_way_back s1 s2 off off matrix L"
  let ?goal = "\<lambda>i j pos dir ops. \<exists>ops'. ?fwb i j (i * L + j) pos dir ops = Inr ops' \<and>
           tail_ok a b off 0 0 ops' \<and> length ops' = length ops + pos"
  have IH: "?goal i' j' pos' dir' ops'"
    if "i' + j' < i + j" "i' \<le> length s1" "j' \<le> length s2" "pos' = M i' j'"
      "dir' < 0 \<longrightarrow> j' < length s2 \<and> M i' (Suc j') = Suc (M i' j')"
      "0 < dir' \<longrightarrow> i' < length s1 \<and> M (Suc i') j' = Suc (M i' j')"
      "tail_ok a b off i' j' ops'" for i' j' pos' dir' ops'
    unfolding L_def off_def
    by (rule less.hyps) (use that in \<open>simp_all add: M_def off_def\<close>)
  have here: "matrix ! (i * L + j) = M i j" using mat less.prems(1,2) by simp
  have left: "matrix ! (i * L + j - 1) = M i (j - 1)" if "j \<noteq> 0"
  proof -
    from that have "i * L + j - 1 = i * L + (j - 1)" by simp
    then show ?thesis using mat[of i "j - 1"] less.prems(1,2) by simp
  qed
  have up: "matrix ! (i * L + j - L) = M (i - 1) j" if "i \<noteq> 0"
  proof -
    from that obtain r where "i = Suc r" by (cases i) auto
    then have "i * L + j - L = (i - 1) * L + j" by simp
    then show ?thesis using mat[of "i - 1" j] less.prems(1,2) by simp
  qed
  have diag: "matrix ! (i * L + j - L - 1) = M (i - 1) (j - 1)" if "i \<noteq> 0" "j \<noteq> 0"
  proof -
    from that obtain r where "i = Suc r" by (cases i) auto
    then have "i * L + j - L - 1 = (i - 1) * L + (j - 1)" using that by simp
    then show ?thesis using mat[of "i - 1" "j - 1"] less.prems(1,2) by simp
  qed
  have ins: "\<exists>ops'. ?fwb i (j - 1) (i * L + j - 1) (pos - 1) dir'
            (\<lparr>type = LEV_EDIT_INSERT, spos = i + off, dpos = (j - 1) + off\<rparr> # ops) = Inr ops' \<and>
           tail_ok a b off 0 0 ops' \<and> length ops' = length ops + pos \<and> pos \<noteq> 0"
    if c: "j \<noteq> 0" "M i j = M i (j - 1) + 1" and d: "dir' < 0" for dir'
  proof -
    from c obtain k where k: "j = Suc k" by (cases j) auto
    have "tail_ok a b off i k (\<lparr>type = LEV_EDIT_INSERT, spos = i + off, dpos = k + off\<rparr> # ops)"
      using tail_ok_insert[of a b off i k ops] t k la lb less.prems(1,2) by simp
    moreover have "pos - 1 = M i k" using pos c k by simp
    moreover have "dir' < 0 \<longrightarrow> k < length s2 \<and> M i (Suc k) = Suc (M i k)"
      using c k less.prems(2) by simp
    moreover have "0 < dir' \<longrightarrow> i < length s1 \<and> M (Suc i) k = Suc (M i k)"
      using d by simp
    ultimately have "?goal i k (pos - 1) dir'
        (\<lparr>type = LEV_EDIT_INSERT, spos = i + off, dpos = k + off\<rparr> # ops)"
      using k less.prems(1,2) by (intro IH) simp_all
    moreover have "i * L + j - 1 = i * L + k" using k by simp
    moreover have "pos > 0" using pos c by simp
    ultimately show ?thesis using k by auto
  qed
  have del: "\<exists>ops'. ?fwb (i - 1) j (i * L + j - L) (pos - 1) dir'
            (\<lparr>type = LEV_EDIT_DELETE, spos = (i - 1) + off, dpos = j + off\<rparr> # ops) = Inr ops' \<and>
           tail_ok a b off 0 0 ops' \<and> length ops' = length ops + pos \<and> pos \<noteq> 0"
    if c: "i \<noteq> 0" "M i j = M (i - 1) j + 1" and d: "dir' > 0" for dir'
  proof -
    from c obtain r where r: "i = Suc r" by (cases i) auto
    have "tail_ok a b off r j (\<lparr>type = LEV_EDIT_DELETE, spos = r + off, dpos = j + off\<rparr> # ops)"
      using tail_ok_delete[of a b off r j ops] t r la less.prems(1) by simp
    moreover have "pos - 1 = M r j" using pos c r by simp
    moreover have "0 < dir' \<longrightarrow> r < length s1 \<and> M (Suc r) j = Suc (M r j)"
      using c r less.prems(1) by simp
    moreover have "dir' < 0 \<longrightarrow> j < length s2 \<and> M r (Suc j) = Suc (M r j)"
      using d by simp
    ultimately have "?goal r j (pos - 1) dir'
        (\<lparr>type = LEV_EDIT_DELETE, spos = r + off, dpos = j + off\<rparr> # ops)"
      using r less.prems(1,2) by (intro IH) simp_all
    moreover have "i * L + j - L = r * L + j" using r by simp
    moreover have "pos > 0" using pos c by simp
    ultimately show ?thesis using r by auto
  qed
  have rep: "\<exists>ops'. ?fwb (i - 1) (j - 1) (i * L + j - (L + 1)) (pos - 1) 0
            (\<lparr>type = LEV_EDIT_REPLACE, spos = (i - 1) + off, dpos = (j - 1) + off\<rparr> # ops) = Inr ops' \<and>
           tail_ok a b off 0 0 ops' \<and> length ops' = length ops + pos \<and> pos \<noteq> 0"
    if c: "i \<noteq> 0" "j \<noteq> 0" "M i j = M (i - 1) (j - 1) + 1"
  proof -
    from c obtain r k where r: "i = Suc r" "j = Suc k" by (cases i; cases j) auto
    have "tail_ok a b off r k (\<lparr>type = LEV_EDIT_REPLACE, spos = r + off, dpos = k + off\<rparr> # ops)"
      using tail_ok_replace[of a b off r k ops] t r la lb less.prems(1,2) by simp
    moreover have "pos - 1 = M r k" using pos c r by simp
    ultimately have "?goal r k (pos - 1) 0
        (\<lparr>type = LEV_EDIT_REPLACE, spos = r + off, dpos = k + off\<rparr> # ops)"
      using r less.prems(1,2) by (intro IH) simp_all
    moreover have "i * L + j - (L + 1) = r * L + k" using r by simp
    moreover have "pos > 0" using pos c by simp
    ultimately show ?thesis using r by auto
  qed
  have keep: "\<exists>ops'. ?fwb (i - 1) (j - 1) (i * L + j - (L + 1)) pos 0 ops = Inr ops' \<and>
           tail_ok a b off 0 0 ops' \<and> length ops' = length ops + pos"
    if c: "i \<noteq> 0" "j \<noteq> 0" "M i j = M (i - 1) (j - 1)" "s1 ! (i - 1) = s2 ! (j - 1)"
  proof -
    from c obtain r k where r: "i = Suc r" "j = Suc k" by (cases i; cases j) auto
    have "a ! (r + off) = b ! (k + off)" using na[of r] nb[of k] c(4) r less.prems(1,2) by simp
    then have "tail_ok a b off r k ops"
      using tail_ok_keep[of a b off r k ops] t r la lb less.prems(1,2) by simp
    moreover have "pos = M r k" using pos c r by simp
    ultimately have "?goal r k pos 0 ops"
      using r less.prems(1,2) by (intro IH) simp_all
    moreover have "i * L + j - (L + 1) = r * L + k" using r by simp
    ultimately show ?thesis using r by auto
  qed
  show ?case unfolding L_def[symmetric] off_def[symmetric]
  proof (cases "i = 0 \<and> j = 0")
    case True
    then have "pos = 0" using pos by (simp add: M_def)
    then have "?fwb i j (i * L + j) pos dir ops = Inr ops"
      using True by (subst find_way_back.simps) simp
    then show "?goal i j pos dir ops" using t True \<open>pos = 0\<close> by simp
  next
    case nz: False
    define c1 where "c1 \<longleftrightarrow> dir < 0 \<and> j \<noteq> 0 \<and> M i j = M i (j - 1) + 1"
    define c2 where "c2 \<longleftrightarrow> dir > 0 \<and> i \<noteq> 0 \<and> M i j = M (i - 1) j + 1"
    define c3 where "c3 \<longleftrightarrow> i \<noteq> 0 \<and> j \<noteq> 0 \<and> M i j = M (i - 1) (j - 1) \<and> s1 ! (i - 1) = s2 ! (j - 1)"
    define c4 where "c4 \<longleftrightarrow> i \<noteq> 0 \<and> j \<noteq> 0 \<and> M i j = M (i - 1) (j - 1) + 1"
    define c5 where "c5 \<longleftrightarrow> dir = 0 \<and> j \<noteq> 0 \<and> M i j = M i (j - 1) + 1"
    define c6 where "c6 \<longleftrightarrow> dir = 0 \<and> i \<noteq> 0 \<and> M i j = M (i - 1) j + 1"
    have e1: "(dir < 0 \<and> j \<noteq> 0 \<and> matrix ! (i * L + j) = matrix ! (i * L + j - 1) + 1) = c1"
      unfolding c1_def using here left by auto
    have e2: "(dir > 0 \<and> i \<noteq> 0 \<and> matrix ! (i * L + j) = matrix ! (i * L + j - L) + 1) = c2"
      unfolding c2_def using here up by auto
    have e3: "(i \<noteq> 0 \<and> j \<noteq> 0 \<and> matrix ! (i * L + j) = matrix ! (i * L + j - L - 1)
                \<and> s1 ! (i - 1) = s2 ! (j - 1)) = c3"
      unfolding c3_def using here diag by auto
    have e4: "(i \<noteq> 0 \<and> j \<noteq> 0 \<and> matrix ! (i * L + j) = matrix ! (i * L + j - L - 1) + 1) = c4"
      unfolding c4_def using here diag by auto
    have e5: "(dir = 0 \<and> j \<noteq> 0 \<and> matrix ! (i * L + j) = matrix ! (i * L + j - 1) + 1) = c5"
      unfolding c5_def using here left by auto
    have e6: "(dir = 0 \<and> i \<noteq> 0 \<and> matrix ! (i * L + j) = matrix ! (i * L + j - L) + 1) = c6"
      unfolding c6_def using here up by auto
    have ev: "?fwb i j (i * L + j) pos dir ops =
       (if c1 then
          (if pos = 0 then Inl OutOfBounds
           else ?fwb i (j - 1) (i * L + j - 1) (pos - 1) dir
                  (\<lparr>type = LEV_EDIT_INSERT, spos = i + off, dpos = (j - 1) + off\<rparr> # ops))
        else if c2 then
          (if pos = 0 then Inl OutOfBounds
           else ?fwb (i - 1) j (i * L + j - L) (pos - 1) dir
                  (\<lparr>type = LEV_EDIT_DELETE, spos = (i - 1) + off, dpos = j + off\<rparr> # ops))
        else if c3 then
          ?fwb (i - 1) (j - 1) (i * L + j - (L + 1)) pos 0 ops
        else if c4 then
          (if pos = 0 then Inl OutOfBounds
           else ?fwb (i - 1) (j - 1) (i * L + j - (L + 1)) (pos - 1) 0
                  (\<lparr>type = LEV_EDIT_REPLACE, spos = (i - 1) + off, dpos = (j - 1) + off\<rparr> # ops))
        else if c5 then
          (if pos = 0 then Inl OutOfBounds
           else ?fwb i (j - 1) (i * L + j - 1) (pos - 1) (- 1)
                  (\<lparr>type = LEV_EDIT_INSERT, spos = i + off, dpos = (j - 1) + off\<rparr> # ops))
        else if c6 then
          (if pos = 0 then Inl OutOfBounds
           else ?fwb (i - 1) j (i * L + j - L) (pos - 1) 1
                  (\<lparr>type = LEV_EDIT_DELETE, spos = (i - 1) + off, dpos = j + off\<rparr> # ops))
        else Inl AssertionFailed)"
      apply (subst find_way_back.simps)
      unfolding e1 e2 e3 e4 e5 e6 using nz by simp
    have never: "c1 \<or> c2 \<or> c3 \<or> c4 \<or> c5 \<or> c6"
    proof (rule ccontr)
      assume n: "\<not> (c1 \<or> c2 \<or> c3 \<or> c4 \<or> c5 \<or> c6)"
      show False
      proof (cases "i = 0")
        case i0: True
        then obtain k where k: "j = Suc k" using nz by (cases j) auto
        have mj: "M i j = M i (j - 1) + 1" using i0 k less.prems(2) by (simp add: M_def)
        then have "dir > 0" using n k unfolding c1_def c5_def by auto
        then have "0 < length s1" "M 1 j = Suc (M 0 j)" using less.prems(5) i0 by (simp_all add: M_def)
        moreover have "M 1 j \<le> Suc (M 0 k)"
          using cell1_diag_le[of 0 s1 k s2] k less.prems(2) \<open>0 < length s1\<close> by (simp add: M_def)
        ultimately show False using k less.prems(2) by (simp add: M_def)
      next
        case inz: False
        then obtain r where r: "i = Suc r" by (cases i) auto
        show False
        proof (cases "j = 0")
          case j0: True
          have mj: "M i j = M (i - 1) j + 1" using j0 r less.prems(1) by (simp add: M_def)
          then have "dir < 0" using n r unfolding c2_def c6_def by auto
          then have "0 < length s2" "M i 1 = Suc (M i 0)" using less.prems(4) j0 by (simp_all add: M_def)
          moreover have "M i 1 \<le> Suc (M r 0)"
            using cell1_diag_le[of r s1 0 s2] r less.prems(1) \<open>0 < length s2\<close> by (simp add: M_def)
          ultimately show False using r less.prems(1) by (simp add: M_def)
        next
          case jnz: False
          then obtain k where k: "j = Suc k" by (cases j) auto
          have rk: "r < length s1" "k < length s2" using r k less.prems(1,2) by simp_all
          have n3: "\<not> (M i j = M r k \<and> s1 ! r = s2 ! k)" using n r k unfolding c3_def by simp
          have n4: "M i j \<noteq> M r k + 1" using n r k unfolding c4_def by simp
          have ne: "s1 ! r \<noteq> s2 ! k" using n3 cell_match[OF rk, of 1] r k by (auto simp: M_def)
          from cell1_cases[OF rk] ne n4 r k
          have ul: "M i j = Suc (M r j) \<or> M i j = Suc (M i k)" by (auto simp: M_def)
          consider "dir = 0" | "dir < 0" | "dir > 0" by linarith
          then show False
          proof cases
            case 1
            then show False using ul n r k unfolding c5_def c6_def by auto
          next
            case 2
            then have "M i j \<noteq> Suc (M i k)" using n k unfolding c1_def by auto
            with ul have u: "M i j = Suc (M r j)" by simp
            from 2 less.prems(4) have "j < length s2" "M i (Suc j) = Suc (M i j)"
              by (simp_all add: M_def)
            moreover have "M i (Suc j) \<le> Suc (M r j)"
              using cell1_diag_le[of r s1 j s2] r rk \<open>j < length s2\<close> by (simp add: M_def)
            ultimately show False using u by simp
          next
            case 3
            then have "M i j \<noteq> Suc (M r j)" using n r unfolding c2_def by auto
            with ul have u: "M i j = Suc (M i k)" by simp
            from 3 less.prems(5) have "i < length s1" "M (Suc i) j = Suc (M i j)"
              by (simp_all add: M_def)
            moreover have "M (Suc i) j \<le> Suc (M i k)"
              using cell1_diag_le[of i s1 k s2] k rk \<open>i < length s1\<close> by (simp add: M_def)
            ultimately show False using u by simp
          qed
        qed
      qed
    qed
    show "?goal i j pos dir ops"
    proof (cases c1)
      case True
      then show ?thesis unfolding ev using ins[of dir] by (auto simp: c1_def)
    next
      case f1: False
      show ?thesis
      proof (cases c2)
        case True
        then show ?thesis unfolding ev using f1 del[of dir] by (auto simp: c2_def)
      next
        case f2: False
        show ?thesis
        proof (cases c3)
          case True
          then show ?thesis unfolding ev using f1 f2 keep by (auto simp: c3_def)
        next
          case f3: False
          show ?thesis
          proof (cases c4)
            case True
            then show ?thesis unfolding ev using f1 f2 f3 rep by (auto simp: c4_def)
          next
            case f4: False
            show ?thesis
            proof (cases c5)
              case True
              then show ?thesis unfolding ev using f1 f2 f3 f4 ins[of "- 1"] by (auto simp: c5_def)
            next
              case f5: False
              then have c6 using never f1 f2 f3 f4 by blast
              then show ?thesis unfolding ev using f1 f2 f3 f4 f5 del[of 1] by (auto simp: c6_def)
            qed
          qed
        qed
      qed
    qed
  qed
qed

lemma lev_eq_0: "0 < sc \<Longrightarrow> lev sc xs ys = 0 \<longleftrightarrow> xs = ys"
proof (induction sc xs ys rule: lev.induct)
  case (3 sc x xs y ys)
  then show ?case by (auto simp: lev.simps(3) min_def split: if_splits)
qed auto

lemma strip_common_prefix_length:
  "strip_common_prefix xs ys = (xs', ys') \<Longrightarrow>
   \<exists>p. xs = p @ xs' \<and> ys = p @ ys' \<and> length p = length xs - length xs'"
  using strip_common_prefix_spec[of xs ys xs' ys'] by auto

text \<open>What \<^verbatim>\<open>lev_editops_find\<close> returns, for every behaviour of the allocator.\<close>

lemma lev_editops_find_cases:
  assumes p: "strip_common_prefix a b = (p1, p2)" and s: "strip_common_suffix p1 p2 = (s1, s2)"
  shows "\<exists>ops. length ops = lev 1 a b \<and> tail_ok a b (length a - length p1) 0 0 ops \<and>
     lev_editops_find heap a b =
       (if heap (Suc (length s1) * Suc (length s2)) = None then Inr (None, Size_Max)
        else if lev 1 a b = 0 then Inr (None, Size 0)
        else if heap (lev 1 a b) = None then Inr (None, Size_Max)
        else Inr (Some ops, Size (lev 1 a b)))"
proof -
  from strip_common_prefix_length[OF p] obtain pre where
    pre: "a = pre @ p1" "b = pre @ p2" "length pre = length a - length p1" by blast
  from strip_common_suffix_spec[OF s] obtain q where q: "p1 = s1 @ q" "p2 = s2 @ q" by blast
  have ab: "a = pre @ s1 @ q" "b = pre @ s2 @ q" using pre q by simp_all
  define L where "L = Suc (length s2)"
  define off where "off = length a - length p1"
  have off: "off = length pre" using pre(3) by (simp add: off_def)
  have l: "lev 1 a b = cell 1 s1 s2 (length s1) (length s2)" unfolding ab by simp
  define mat where "mat f = matrix_rows s1 s2 (Suc (length s1)) L 1 (init_matrix f (Suc (length s1)) L)" for f
  have mok: "rows_ok s1 s2 (Suc (length s1)) (mat f)" for f
    unfolding mat_def L_def by (rule matrix_ok)
  have last: "Suc (length s1) * L - 1 = length s1 * L + length s2" by (simp add: L_def)
  have n: "mat f ! (Suc (length s1) * L - 1) = lev 1 a b" for f
    unfolding last l using mok[of f] unfolding rows_ok_def L_def by simp
  have t0: "tail_ok a b (length pre) (length s1) (length s2) []" by (rule tail_ok_Nil[OF ab])
  have "\<exists>ops'. find_way_back s1 s2 off off (mat f) L
             (length s1) (length s2) (length s1 * L + length s2) (lev 1 a b) 0 [] = Inr ops' \<and>
           tail_ok a b off 0 0 ops' \<and> length ops' = length ([]::LevEditOp list) + lev 1 a b" for f
    unfolding off L_def using mok[of f] l t0 by (intro find_way_back_correct[OF ab]) simp_all
  then have "\<forall>f. \<exists>ops'. find_way_back s1 s2 off off (mat f) L
             (length s1) (length s2) (Suc (length s1) * L - 1) (lev 1 a b) 0 [] = Inr ops' \<and>
           tail_ok a b off 0 0 ops' \<and> length ops' = lev 1 a b"
    unfolding last by simp
  then obtain F where F: "\<And>f. find_way_back s1 s2 off off (mat f) L
             (length s1) (length s2) (Suc (length s1) * L - 1) (lev 1 a b) 0 [] = Inr (F f)"
      "\<And>f. tail_ok a b off 0 0 (F f)" "\<And>f. length (F f) = lev 1 a b"
    by metis
  have e: "editops_from_cost_matrix heap (Suc (length s1)) s1 off L s2 off (mat f) =
      (if lev 1 a b = 0 then Inr (None, Size 0)
        else if heap (lev 1 a b) = None then Inr (None, Size_Max)
        else Inr (Some (F f), Size (lev 1 a b)))" for f
  proof -
    have fw: "find_way_back s1 s2 off off (mat f) L (Suc (length s1) - 1) (L - 1)
        (Suc (length s1) * L - 1) (lev 1 a b) 0 [] = Inr (F f)"
      using F(1)[of f] by (simp only: L_def diff_Suc_1)
    show ?thesis
      unfolding editops_from_cost_matrix_def Let_def n fw
      by (cases "heap (lev 1 a b)") simp_all
  qed
  have unf: "lev_editops_find heap a b =
      (case heap (Suc (length s1) * L) of
           None \<Rightarrow> Inr (None, Size_Max)
         | Some f \<Rightarrow> editops_from_cost_matrix heap (Suc (length s1)) s1 off L s2 off (mat f))"
    unfolding lev_editops_find_def p s Let_def prod.case mat_def L_def off_def Suc_eq_plus1
    by (rule refl)
  show ?thesis
  proof (cases "heap (Suc (length s1) * L)")
    case None
    then show ?thesis unfolding unf using F(2,3)[of "\<lambda>_. 0"] unfolding L_def off_def by auto
  next
    case (Some f)
    then show ?thesis unfolding unf e using F(2,3)[of f] unfolding L_def off_def by auto
  qed
qed

lemma take_drop_common:
  assumes "a = pre @ x" "b = pre @ y"
  shows "take (length pre) a @ drop (length pre) b = b"
  using assms by simp

lemma lev_editops_apply_tail_ok:
  assumes t: "tail_ok a b off 0 0 ops" and pre: "a = pre @ x" "b = pre @ y" "off = length pre"
    and h: "heap (length ops + length a) \<noteq> None" "0 < length b \<Longrightarrow> realloc (length b)"
  shows "\<exists>d. lev_editops_apply heap realloc a b ops = Inr (d, Size (length b)) \<and>
           bytes_array d = b"
proof -
  define cap where "cap = length ops + length a"
  have "0 \<le> 0 + off \<and> length ([]::'a list) + (length a - 0) + length ops \<le> cap"
    by (simp add: cap_def)
  with t obtain sp' d' where r: "apply_ops cap a b ops 0 [] = Inr (sp', d')" "sp' \<le> length a"
    "length d' + (length a - sp') \<le> cap"
    "d' @ drop sp' a = [] @ take (0 + off - 0) (drop 0 a) @ drop (0 + off) b"
    unfolding tail_ok_def by blast
  have b: "d' @ drop sp' a = b" using r(4) take_drop_common[OF pre(1,2)] pre(3) by simp
  have ap: "lev_editops_apply heap realloc a b ops =
              (if realloc (length b) then Inr (Some b, Size (length b))
               else Inr (None, Size (length b)))"
    using h(1) r(1,2,3) b unfolding lev_editops_apply_def Let_def cap_def[symmetric]
    by (auto split: option.splits)
  show ?thesis
  proof (cases "realloc (length b)")
    case True
    then show ?thesis using ap by simp
  next
    case False
    then have "b = []" using h(2) by auto
    then show ?thesis using ap False by simp
  qed
qed

lemma strip_common_prefix_same [simp]: "strip_common_prefix a a = ([], [])"
  by (induction a) auto

lemma strip_common_suffix_Nil [simp]: "strip_common_suffix [] ys = ([], ys)"
  by (subst strip_common_suffix.simps) simp

section \<open>Claims about the edit operations\<close>

text \<open>
  C2. Applying the edit operations that \<^verbatim>\<open>lev_editops_find\<close> returns for \<open>a\<close> and \<open>b\<close> to \<open>a\<close>, with
  \<open>b\<close> as the destination string, yields \<open>b\<close>: the search never runs into its assertion, it
  fills the array it allocated completely, and \<^verbatim>\<open>lev_editops_apply\<close> stays inside both strings
  and its block and sets \<^verbatim>\<open>*len\<close> to the length of \<open>b\<close>. This holds for every \<open>a\<close> and \<open>b\<close> when
  \<^verbatim>\<open>malloc\<close> and \<^verbatim>\<open>realloc\<close> succeed for every positive size. For an empty \<open>b\<close> the call
  \<^verbatim>\<open>realloc(dst, 0)\<close> may return \<^verbatim>\<open>NULL\<close>, which with \<^verbatim>\<open>*len == 0\<close> is the empty string. Only for
  two empty strings the block of \<^verbatim>\<open>lev_editops_apply\<close> has no cells, and \<^verbatim>\<open>malloc(0)\<close> has to
  return a block for the call not to report a failure.
\<close>

theorem C2_apply_of_find_is_destination:
  assumes "\<And>n. 0 < n \<Longrightarrow> heap n \<noteq> None" and "\<And>n. 0 < n \<Longrightarrow> realloc n"
    and "a = [] \<Longrightarrow> b = [] \<Longrightarrow> heap 0 \<noteq> None"
  shows "\<exists>r n d. lev_editops_find heap a b = Inr (r, Size n) \<and> n = length (ops_array r) \<and>
           lev_editops_apply heap realloc a b (ops_array r) = Inr (d, Size (length b)) \<and>
           bytes_array d = b"
proof -
  obtain p1 p2 where p: "strip_common_prefix a b = (p1, p2)" by (cases "strip_common_prefix a b")
  obtain s1 s2 where s: "strip_common_suffix p1 p2 = (s1, s2)" by (cases "strip_common_suffix p1 p2")
  define d where "d = lev 1 a b"
  from lev_editops_find_cases[OF p s, of heap, folded d_def] obtain ops where o:
    "length ops = d" "tail_ok a b (length a - length p1) 0 0 ops"
    "lev_editops_find heap a b =
       (if heap (Suc (length s1) * Suc (length s2)) = None then Inr (None, Size_Max)
        else if d = 0 then Inr (None, Size 0)
        else if heap d = None then Inr (None, Size_Max)
        else Inr (Some ops, Size d))"
    by blast
  have f: "lev_editops_find heap a b = (if d = 0 then Inr (None, Size 0) else Inr (Some ops, Size d))"
  proof (cases "d = 0")
    case True
    then show ?thesis
      unfolding o(3) using assms(1)[of "Suc (length s1) * Suc (length s2)"] by simp
  next
    case False
    then have "heap d \<noteq> None" using assms(1)[of d] by simp
    then show ?thesis
      unfolding o(3) using assms(1)[of "Suc (length s1) * Suc (length s2)"] False by simp
  qed
  have d0: "d = 0 \<longleftrightarrow> a = b" unfolding d_def by (rule lev_eq_0) simp
  from strip_common_prefix_length[OF p] obtain pre where
    pre: "a = pre @ p1" "b = pre @ p2" "length pre = length a - length p1" by blast
  have "heap (length ops + length a) \<noteq> None"
  proof (cases "length ops + length a = 0")
    case True
    then have "a = []" "d = 0" using o(1) by simp_all
    then have "a = []" "b = []" using d0 by simp_all
    then show ?thesis using assms(3) True by simp
  next
    case False
    then show ?thesis using assms(1) by simp
  qed
  from lev_editops_apply_tail_ok[of a b "length a - length p1" ops pre p1 p2 heap realloc,
      OF o(2) pre(1,2) pre(3)[symmetric] this]
  obtain dst where ap: "lev_editops_apply heap realloc a b ops = Inr (dst, Size (length b))"
    "bytes_array dst = b"
    using assms(2) by blast
  show ?thesis
  proof (cases "d = 0")
    case True
    then have "ops = []" using o(1) by simp
    then show ?thesis using f True ap by simp
  next
    case False
    then show ?thesis using f o(1) ap by simp
  qed
qed

theorem C2_apply_of_find_witness:
  "(\<exists>r n d. lev_editops_find (\<lambda>n. Some (\<lambda>k. 0)) ''abcd'' ''bxda'' = Inr (r, Size n) \<and>
      n = length (ops_array r) \<and>
      lev_editops_apply (\<lambda>n. Some (\<lambda>k. 0)) (\<lambda>n. 0 < n) ''abcd'' ''bxda'' (ops_array r) =
        Inr (d, Size (length ''bxda'')) \<and>
      bytes_array d = ''bxda'') \<and>
   lev_editops_find (\<lambda>n. Some (\<lambda>k. 0)) ''abcd'' ''bxda'' =
     Inr (Some [\<lparr>type = LEV_EDIT_DELETE, spos = 0, dpos = 0\<rparr>,
                \<lparr>type = LEV_EDIT_REPLACE, spos = 2, dpos = 1\<rparr>,
                \<lparr>type = LEV_EDIT_INSERT, spos = 4, dpos = 3\<rparr>], Size 3) \<and>
   lev_editops_find (\<lambda>n. Some (\<lambda>k. 0)) ''ab'' [] =
     Inr (Some [\<lparr>type = LEV_EDIT_DELETE, spos = 0, dpos = 0\<rparr>,
                \<lparr>type = LEV_EDIT_DELETE, spos = 1, dpos = 0\<rparr>], Size 2) \<and>
   lev_editops_apply (\<lambda>n. Some (\<lambda>k. 0)) (\<lambda>n. 0 < n) ''ab'' []
     [\<lparr>type = LEV_EDIT_DELETE, spos = 0, dpos = 0\<rparr>,
      \<lparr>type = LEV_EDIT_DELETE, spos = 1, dpos = 0\<rparr>] = Inr (None, Size 0)"
proof -
  have h: "\<And>n::nat. 0 < n \<Longrightarrow> (\<lambda>n. Some (\<lambda>k. 0::nat)) n \<noteq> None" by simp
  have g: "\<And>n::nat. 0 < n \<Longrightarrow> (\<lambda>n. 0 < n) n" by simp
  have z: "''abcd'' = [] \<Longrightarrow> ''bxda'' = [] \<Longrightarrow> (\<lambda>n. Some (\<lambda>k. 0::nat)) (0::nat) \<noteq> None" by simp
  have e: "lev_editops_find (\<lambda>n. Some (\<lambda>k. 0)) ''abcd'' ''bxda'' =
     Inr (Some [\<lparr>type = LEV_EDIT_DELETE, spos = 0, dpos = 0\<rparr>,
                \<lparr>type = LEV_EDIT_REPLACE, spos = 2, dpos = 1\<rparr>,
                \<lparr>type = LEV_EDIT_INSERT, spos = 4, dpos = 3\<rparr>], Size 3)"
    by code_simp
  have e2: "lev_editops_find (\<lambda>n. Some (\<lambda>k. 0)) ''ab'' [] =
     Inr (Some [\<lparr>type = LEV_EDIT_DELETE, spos = 0, dpos = 0\<rparr>,
                \<lparr>type = LEV_EDIT_DELETE, spos = 1, dpos = 0\<rparr>], Size 2)"
    by code_simp
  have e3: "lev_editops_apply (\<lambda>n. Some (\<lambda>k. 0)) (\<lambda>n. 0 < n) ''ab'' []
     [\<lparr>type = LEV_EDIT_DELETE, spos = 0, dpos = 0\<rparr>,
      \<lparr>type = LEV_EDIT_DELETE, spos = 1, dpos = 0\<rparr>] = Inr (None, Size 0)"
    by code_simp
  note t = C2_apply_of_find_is_destination[of "\<lambda>n. Some (\<lambda>k. 0)" "\<lambda>n. 0 < n" "''abcd''" "''bxda''",
      OF h g z]
  show ?thesis using t e e2 e3 by (intro conjI)
qed

text \<open>
  C10. For equal strings (the strings of edit distance 0) \<^verbatim>\<open>lev_editops_find\<close> returns \<^verbatim>\<open>NULL\<close>
  with \<^verbatim>\<open>*n == 0\<close>, provided the one-cell matrix can be allocated. A \<^verbatim>\<open>NULL\<close> result comes with
  \<^verbatim>\<open>*n == 0\<close>, and then the strings are equal and the empty script is right, or with the
  sentinel \<^verbatim>\<open>(size_t)(-1)\<close>, and then an allocation failed.
\<close>

theorem C10_null_result_of_find:
  "(heap 1 \<noteq> None \<longrightarrow> lev_editops_find heap a a = Inr (None, Size 0)) \<and>
   (min_edit_cost 1 a b 0 \<and> heap 1 \<noteq> None \<longrightarrow> lev_editops_find heap a b = Inr (None, Size 0)) \<and>
   (\<forall>n. lev_editops_find heap a b = Inr (None, n) \<longrightarrow>
      (n = Size 0 \<and> a = b) \<or> (n = Size_Max \<and> (\<exists>k. heap k = None)))"
proof (intro conjI impI allI)
  have same: "lev_editops_find heap a a = Inr (None, Size 0)" if "heap 1 \<noteq> None" for a :: "lev_byte list"
  proof -
    define d where "d = lev 1 a a"
    have d0: "d = 0" by (simp add: d_def lev_eq_0)
    have "strip_common_suffix ([]::lev_byte list) [] = ([], [])" by simp
    from lev_editops_find_cases[OF strip_common_prefix_same this, of a heap, folded d_def]
    obtain ops where
      "lev_editops_find heap a a =
       (if heap (Suc (length ([]::lev_byte list)) * Suc (length ([]::lev_byte list))) = None
        then Inr (None, Size_Max)
        else if d = 0 then Inr (None, Size 0)
        else if heap d = None then Inr (None, Size_Max)
        else Inr (Some ops, Size d))" by blast
    then show ?thesis using that d0 by simp
  qed
  show "lev_editops_find heap a a = Inr (None, Size 0)" if "heap 1 \<noteq> None"
    using same that by simp
  show "lev_editops_find heap a b = Inr (None, Size 0)" if "min_edit_cost 1 a b 0 \<and> heap 1 \<noteq> None"
  proof -
    from that have "lev 1 a b = 0" using min_edit_cost_unique[of 1 a b 0] by simp
    then have "a = b" using lev_eq_0[of 1 a b] by simp
    then show ?thesis using same that by simp
  qed
  fix n assume r: "lev_editops_find heap a b = Inr (None, n)"
  obtain p1 p2 where p: "strip_common_prefix a b = (p1, p2)" by (cases "strip_common_prefix a b")
  obtain s1 s2 where s: "strip_common_suffix p1 p2 = (s1, s2)" by (cases "strip_common_suffix p1 p2")
  define d where "d = lev 1 a b"
  define k0 where "k0 = Suc (length s1) * Suc (length s2)"
  from lev_editops_find_cases[OF p s, of heap, folded d_def k0_def] obtain ops where o:
    "lev_editops_find heap a b =
       (if heap k0 = None then Inr (None, Size_Max)
        else if d = 0 then Inr (None, Size 0)
        else if heap d = None then Inr (None, Size_Max)
        else Inr (Some ops, Size d))"
    by blast
  have ab: "a = b" if "d = 0" using that lev_eq_0[of 1 a b] by (simp add: d_def)
  show "(n = Size 0 \<and> a = b) \<or> (n = Size_Max \<and> (\<exists>k. heap k = None))"
    using r ab unfolding o by (auto split: if_splits)
qed

theorem C10_null_result_witness:
  "lev_editops_find (\<lambda>n. Some (\<lambda>k. 0)) ''abc'' ''abc'' = Inr (None, Size 0) \<and>
   lev_editops_find (\<lambda>n. None) ''ab'' ''ba'' = Inr (None, Size_Max) \<and>
   (\<exists>k. (\<lambda>n. None :: (nat \<Rightarrow> nat) option) k = None)"
proof -
  have e: "lev_editops_find (\<lambda>n. None) ''ab'' ''ba'' = Inr (None, Size_Max)" by code_simp
  have "(\<lambda>n. Some (\<lambda>k. 0::nat)) 1 \<noteq> None" by simp
  with C10_null_result_of_find[of "\<lambda>n. Some (\<lambda>k. 0)" "''abc''" "''abc''"]
  have a: "lev_editops_find (\<lambda>n. Some (\<lambda>k. 0)) ''abc'' ''abc'' = Inr (None, Size 0)" by blast
  from C10_null_result_of_find[of "\<lambda>n. None" "''ab''" "''ba''"] e
  have "(Size_Max = Size 0 \<and> ''ab'' = ''ba'') \<or>
        (Size_Max = Size_Max \<and> (\<exists>k. (\<lambda>n. None :: (nat \<Rightarrow> nat) option) k = None))" by blast
  then have b: "\<exists>k. (\<lambda>n. None :: (nat \<Rightarrow> nat) option) k = None" by blast
  show ?thesis using a e b by (intro conjI)
qed

section \<open>The quick median: its length\<close>

subsection \<open>What is used of the rounding\<close>







subsection \<open>The rounded quotient\<close>



subsection \<open>The sums of the weights\<close>



subsection \<open>The votes stay inside the strings\<close>







section \<open>Claims about the quick median\<close>




text \<open>
  C6 against the code: when the sum \<open>wl\<close> of the weights is zero, \<^verbatim>\<open>lev_quick_median\<close> returns
  the result of \<^verbatim>\<open>calloc(1, sizeof(lev_byte))\<close> and leaves \<^verbatim>\<open>*medlength\<close> as it was at the call:
  the assignment \<^verbatim>\<open>*medlength = len\<close> comes only after the test \<^verbatim>\<open>wl == 0.0\<close>.
\<close>

theorem C6_zero_weight_leaves_medlength:
  "snd (weight_sums rnd strings weights (0, 0)) = 0 \<Longrightarrow>
   lev_quick_median rnd heap strings weights medlength =
     (Inr (map_option (\<lambda>f. []) (heap 1)), medlength)"
  by (cases "weight_sums rnd strings weights (0, 0)") (simp add: lev_quick_median_def)

theorem C6_zero_weight_witness:
  "snd (weight_sums (\<lambda>x. x) [''a''] [0] (0, 0)) = 0 \<and>
   lev_quick_median (\<lambda>x. x) (\<lambda>n. Some (\<lambda>k. 0)) [''a''] [0] 77 = (Inr (Some ''''), 77)"
  using C6_zero_weight_leaves_medlength[of "\<lambda>x. x" "[''a'']" "[0]" "\<lambda>n. Some (\<lambda>k. 0)" 77] by simp

section \<open>Claims about the set median\<close>

text \<open>
  C4 against the code: the pairs \<open>(0, 1)\<close> and \<open>(0, 2)\<close> share the cell \<open>0\<close> of \<open>distances\<close>
  (as do \<open>(j - 1, j)\<close> and \<open>(0, j + 1)\<close> in general), so that candidate \<open>1\<close> is summed with
  the distance of the pair \<open>(0, 2)\<close> in place of that of \<open>(0, 1)\<close>. For the strings \<open>ab\<close>, \<open>a\<close>
  and the empty string with weights 1 the function returns index \<open>0\<close>, whose weighted sum of
  distances is 3, and the sum of index \<open>1\<close> is 2.
\<close>

theorem C4_set_median_not_minimal:
  "lev_set_median_index (\<lambda>n. Some (\<lambda>k. 0)) [''ab'', ''a'', ''''] [1, 1, 1] = Inr (Size 0) \<and>
   set_median_sum [''ab'', ''a'', ''''] [1, 1, 1] 0 = 3 \<and>
   set_median_sum [''ab'', ''a'', ''''] [1, 1, 1] 1 = 2"
proof -
  have a: "lev_set_median_index (\<lambda>n. Some (\<lambda>k. 0)) [''ab'', ''a'', ''''] [1, 1, 1] = Inr (Size 0)"
    by code_simp
  have b: "set_median_sum [''ab'', ''a'', ''''] [1, 1, 1] 0 = 3" by code_simp
  have c: "set_median_sum [''ab'', ''a'', ''''] [1, 1, 1] 1 = 2" by code_simp
  show ?thesis using a b c by (intro conjI)
qed

section \<open>Claims about the greedy median\<close>

text \<open>
  C8 against the code: with the weights \<open>10\<^sup>1\<^sup>0\<^sup>0\<close> and \<open>10\<^sup>1\<^sup>0\<^sup>0\<close> for the strings \<open>a\<close> and
  \<open>b\<close> no symbol has a \<open>minsum\<close> below \<^verbatim>\<open>LEV_INFINITY\<close>, so that \<^verbatim>\<open>median[len - 1]\<close> and
  \<^verbatim>\<open>mediandist[len]\<close> are never written, and the function reads the indeterminate content of
  its buffers. With the cells holding 4, 3, 2, 1 it returns the three symbols of the
  \<open>median\<close> buffer, whose weighted sum of distances is \<open>6 \<cdot> 10\<^sup>1\<^sup>0\<^sup>0\<close>; the sum of the empty
  string is \<open>2 \<cdot> 10\<^sup>1\<^sup>0\<^sup>0\<close>.
\<close>

theorem C8_greedy_median_unwritten_buffers:
  "lev_greedy_median (\<lambda>n. Some (\<lambda>k. 4 - k)) [''a'', ''b''] [10 ^ 100, 10 ^ 100] 0 =
     (Inr (Some [CHR 0x04, CHR 0x03, CHR 0x02]), 3) \<and>
   median_sum [CHR 0x04, CHR 0x03, CHR 0x02] [''a'', ''b''] [10 ^ 100, 10 ^ 100] = 6 * 10 ^ 100 \<and>
   median_sum [] [''a'', ''b''] [10 ^ 100, 10 ^ 100] = 2 * 10 ^ 100"
proof -
  have a: "lev_greedy_median (\<lambda>n. Some (\<lambda>k. 4 - k)) [''a'', ''b''] [10 ^ 100, 10 ^ 100] 0 =
     (Inr (Some [CHR 0x04, CHR 0x03, CHR 0x02]), 3)"
    by code_simp
  have b: "median_sum [CHR 0x04, CHR 0x03, CHR 0x02] [''a'', ''b''] [10 ^ 100, 10 ^ 100] = 6 * 10 ^ 100"
    by code_simp
  have c: "median_sum [] [''a'', ''b''] [10 ^ 100, 10 ^ 100] = 2 * 10 ^ 100"
    by code_simp
  show ?thesis using a b c by (intro conjI)
qed

section \<open>Block operation codes\<close>

text \<open>
  \<^verbatim>\<open>LevOpCode\<close> and the error codes of the validators are declared in the header. From
  here on \<open>type\<close> is the field of a block; the field of an elementary operation is
  \<open>LevEditOp.type\<close>. The local variables \<^verbatim>\<open>spos\<close> and \<^verbatim>\<open>dpos\<close> of the source are \<open>sp\<close> and
  \<open>dp\<close>, and its pointer \<^verbatim>\<open>o\<close> into the operations is the list of the operations from \<^verbatim>\<open>o\<close>
  on, with \<^verbatim>\<open>i\<close> its length.
\<close>

record LevOpCode =
  type :: LevEditType
  sbeg :: nat
  send :: nat
  dbeg :: nat
  dend :: nat

datatype LevEditErr =
  LEV_EDIT_ERR_OK | LEV_EDIT_ERR_TYPE | LEV_EDIT_ERR_OUT | LEV_EDIT_ERR_ORDER
  | LEV_EDIT_ERR_BLOCK | LEV_EDIT_ERR_SPAN

text \<open>\<^verbatim>\<open>lev_editops_check_errors\<close>: \<^verbatim>\<open>/* check bounds */\<close>, then \<^verbatim>\<open>/* check ordering */\<close>.\<close>

fun check_bounds :: "nat \<Rightarrow> nat \<Rightarrow> LevEditOp list \<Rightarrow> LevEditErr" where
  "check_bounds len1 len2 [] = LEV_EDIT_ERR_OK"
| "check_bounds len1 len2 (op # ops) =
     (if LevEditOp.type op = LEV_EDIT_LAST then LEV_EDIT_ERR_TYPE
      else if spos op > len1 \<or> dpos op > len2 then LEV_EDIT_ERR_OUT
      else if spos op = len1 \<and> LevEditOp.type op \<noteq> LEV_EDIT_INSERT then LEV_EDIT_ERR_OUT
      else if dpos op = len2 \<and> LevEditOp.type op \<noteq> LEV_EDIT_DELETE then LEV_EDIT_ERR_OUT
      else check_bounds len1 len2 ops)"

fun check_ordering :: "LevEditOp list \<Rightarrow> LevEditErr" where
  "check_ordering (ops0 # op # ops) =
     (if spos op < spos ops0 \<or> dpos op < dpos ops0 then LEV_EDIT_ERR_ORDER
      else check_ordering (op # ops))"
| "check_ordering ops = LEV_EDIT_ERR_OK"

definition lev_editops_check_errors :: "nat \<Rightarrow> nat \<Rightarrow> LevEditOp list \<Rightarrow> LevEditErr" where
  "lev_editops_check_errors len1 len2 ops =
     (if ops = [] then LEV_EDIT_ERR_OK
      else if check_bounds len1 len2 ops \<noteq> LEV_EDIT_ERR_OK then check_bounds len1 len2 ops
      else check_ordering ops)"

text \<open>
  \<^verbatim>\<open>size_t\<close> addition and subtraction, which wrap; \<^verbatim>\<open>size_t\<close> has 64 bits here. The positions
  and counters of the functions of this section are computed with them.
\<close>

definition size_add :: "nat \<Rightarrow> nat \<Rightarrow> nat" where
  "size_add a b = (a + b) mod 2 ^ 64"

definition size_sub :: "nat \<Rightarrow> nat \<Rightarrow> nat" where
  "size_sub a b = (if b \<le> a then a - b else a + 2 ^ 64 - b)"

text \<open>
  The three \<^verbatim>\<open>do ... while\<close> loops of the \<^verbatim>\<open>switch\<close> differ in the position they increment
  only. \<open>block_step\<close> is the increment, and \<open>block_run\<close> the loop after its first round: it
  goes on while \<^verbatim>\<open>i && o->type == type && spos == o->spos && dpos == o->dpos\<close>.
\<close>

fun block_step :: "LevEditType \<Rightarrow> nat \<times> nat \<Rightarrow> nat \<times> nat" where
  "block_step LEV_EDIT_REPLACE (sp, dp) = (size_add sp 1, size_add dp 1)"
| "block_step LEV_EDIT_DELETE (sp, dp) = (size_add sp 1, dp)"
| "block_step LEV_EDIT_INSERT (sp, dp) = (sp, size_add dp 1)"
| "block_step t (sp, dp) = (sp, dp)"

fun block_run :: "LevEditType \<Rightarrow> nat \<times> nat \<Rightarrow> LevEditOp list \<Rightarrow> (nat \<times> nat) \<times> LevEditOp list" where
  "block_run t (sp, dp) [] = ((sp, dp), [])"
| "block_run t (sp, dp) (op # ops) =
     (if LevEditOp.type op = t \<and> sp = spos op \<and> dp = dpos op
      then block_run t (block_step t (sp, dp)) ops
      else ((sp, dp), op # ops))"

text \<open>
  \<^verbatim>\<open>/* compute the number of blocks */\<close>: the first loop of \<^verbatim>\<open>lev_editops_to_opcodes\<close>. An
  operation whose type is none of the four takes the \<^verbatim>\<open>default\<close> branch, which consumes
  nothing: the loop runs forever, and the function has no value.
\<close>

partial_function (option) count_blocks ::
  "LevEditOp list \<Rightarrow> nat \<times> nat \<Rightarrow> nat \<Rightarrow> (nat \<times> nat \<times> nat) option" where
  "count_blocks ops pos nbl =
     (case dropWhile (\<lambda>op. LevEditOp.type op = LEV_EDIT_KEEP) ops of
        [] \<Rightarrow> Some (nbl, pos)
      | op # rest \<Rightarrow>
          if LevEditOp.type op = LEV_EDIT_REPLACE \<or> LevEditOp.type op = LEV_EDIT_DELETE
             \<or> LevEditOp.type op = LEV_EDIT_INSERT
          then
            (case block_run (LevEditOp.type op)
                    (block_step (LevEditOp.type op)
                       (if fst pos < spos op \<or> snd pos < dpos op then (spos op, dpos op) else pos))
                    rest of
               (pos', ops') \<Rightarrow>
                 count_blocks ops' pos'
                   (if fst pos < spos op \<or> snd pos < dpos op then size_add nbl 2
                    else size_add nbl 1))
          else
            count_blocks (op # rest)
              (if fst pos < spos op \<or> snd pos < dpos op then (spos op, dpos op) else pos)
              (if fst pos < spos op \<or> snd pos < dpos op then size_add nbl 2
               else size_add nbl 1))"

declare count_blocks.simps [code]

text \<open>
  \<^verbatim>\<open>/* convert */\<close>: the second loop, which writes the blocks into the \<open>nbl\<close> cells of
  \<^verbatim>\<open>bops\<close>; \<open>bops\<close> are the cells written so far.
\<close>

partial_function (option) write_blocks ::
  "nat \<Rightarrow> LevEditOp list \<Rightarrow> nat \<times> nat \<Rightarrow> LevOpCode list \<Rightarrow>
   (lev_error + LevOpCode list \<times> nat \<times> nat) option" where
  "write_blocks nbl ops pos bops =
     (case dropWhile (\<lambda>op. LevEditOp.type op = LEV_EDIT_KEEP) ops of
        [] \<Rightarrow> Some (Inr (bops, pos))
      | op # rest \<Rightarrow>
          let jump = (fst pos < spos op \<or> snd pos < dpos op);
              keep = (if jump
                      then [\<lparr>type = LEV_EDIT_KEEP, sbeg = fst pos, send = spos op,
                             dbeg = snd pos, dend = dpos op\<rparr>]
                      else []);
              beg = (if jump then (spos op, dpos op) else pos)
          in if length (bops @ keep) \<ge> nbl then Some (Inl OutOfBounds)
             else if LevEditOp.type op = LEV_EDIT_REPLACE \<or> LevEditOp.type op = LEV_EDIT_DELETE
                     \<or> LevEditOp.type op = LEV_EDIT_INSERT
             then
               (case block_run (LevEditOp.type op) (block_step (LevEditOp.type op) beg) rest of
                  (pos', ops') \<Rightarrow>
                    write_blocks nbl ops' pos'
                      (bops @ keep @
                         [\<lparr>type = LevEditOp.type op, sbeg = fst beg, send = fst pos',
                           dbeg = snd beg, dend = snd pos'\<rparr>]))
             else
               write_blocks nbl (op # rest) beg
                 (bops @ keep @
                    [\<lparr>type = LevEditOp.type op, sbeg = fst beg, send = fst beg,
                      dbeg = snd beg, dend = snd beg\<rparr>]))"

declare write_blocks.simps [code]

text \<open>
  \<^verbatim>\<open>lev_editops_to_opcodes\<close>: the number of blocks, the allocation, the blocks, and the last
  \<^verbatim>\<open>LEV_EDIT_KEEP\<close> block up to the ends of the strings with its assertion. The result is the
  returned pointer and \<^verbatim>\<open>*nb\<close>; \<open>None\<close> outside: the function does not return.
\<close>

definition lev_editops_to_opcodes ::
  "heap \<Rightarrow> LevEditOp list \<Rightarrow> nat \<Rightarrow> nat \<Rightarrow> (lev_error + LevOpCode list option \<times> size_out) option" where
  "lev_editops_to_opcodes heap ops len1 len2 =
     (case count_blocks ops (0, 0) 0 of
        None \<Rightarrow> None
      | Some (nbl0, sp0, dp0) \<Rightarrow>
          let nbl = (if sp0 < len1 \<or> dp0 < len2 then size_add nbl0 1 else nbl0) in
          if heap nbl = None then Some (Inr (None, Size_Max))
          else
            (case write_blocks nbl ops (0, 0) [] of
               None \<Rightarrow> None
             | Some (Inl err) \<Rightarrow> Some (Inl err)
             | Some (Inr (bops, sp, dp)) \<Rightarrow>
                 if sp < len1 \<or> dp < len2 then
                   if size_sub len1 sp \<noteq> size_sub len2 dp then Some (Inl AssertionFailed)
                   else if length bops \<ge> nbl then Some (Inl OutOfBounds)
                   else if length bops + 1 \<noteq> nbl then Some (Inl AssertionFailed)
                   else Some (Inr (Some (bops @ [\<lparr>type = LEV_EDIT_KEEP, sbeg = sp, send = len1,
                                                    dbeg = dp, dend = len2\<rparr>]), Size nbl))
                 else if length bops \<noteq> nbl then Some (Inl AssertionFailed)
                 else Some (Inr (Some bops, Size nbl))))"

text \<open>
  \<^verbatim>\<open>lev_opcodes_to_editops\<close>: \<open>block_count\<close> is what a block adds to \<^verbatim>\<open>*n\<close>, and \<open>block_ops\<close>
  the operations the \<^verbatim>\<open>switch\<close> writes for it. The sum \<^verbatim>\<open>*n\<close> wraps, and so do the positions
  \<^verbatim>\<open>b->sbeg + j\<close> and \<^verbatim>\<open>b->dbeg + j\<close>; when the blocks stand for more operations than the
  \<^verbatim>\<open>*n\<close> cells allocated, the loop writes behind the array.
\<close>

definition block_count :: "bool \<Rightarrow> LevOpCode \<Rightarrow> nat" where
  "block_count keepkeep b =
     (let sd = size_sub (send b) (sbeg b);
          dd = size_sub (dend b) (dbeg b)
      in if keepkeep \<or> type b \<noteq> LEV_EDIT_KEEP then (if sd > dd then sd else dd) else 0)"

definition block_ops :: "bool \<Rightarrow> LevOpCode \<Rightarrow> LevEditOp list" where
  "block_ops keepkeep b =
     (case type b of
        LEV_EDIT_KEEP \<Rightarrow>
          if keepkeep then
            map (\<lambda>j. \<lparr>LevEditOp.type = LEV_EDIT_KEEP, spos = size_add (sbeg b) j,
                  dpos = size_add (dbeg b) j\<rparr>)
              [0 ..< size_sub (send b) (sbeg b)]
          else []
      | LEV_EDIT_REPLACE \<Rightarrow>
          map (\<lambda>j. \<lparr>LevEditOp.type = LEV_EDIT_REPLACE, spos = size_add (sbeg b) j,
                  dpos = size_add (dbeg b) j\<rparr>)
            [0 ..< size_sub (send b) (sbeg b)]
      | LEV_EDIT_DELETE \<Rightarrow>
          map (\<lambda>j. \<lparr>LevEditOp.type = LEV_EDIT_DELETE, spos = size_add (sbeg b) j,
                  dpos = dbeg b\<rparr>)
            [0 ..< size_sub (send b) (sbeg b)]
      | LEV_EDIT_INSERT \<Rightarrow>
          map (\<lambda>j. \<lparr>LevEditOp.type = LEV_EDIT_INSERT, spos = sbeg b,
                  dpos = size_add (dbeg b) j\<rparr>)
            [0 ..< size_sub (dend b) (dbeg b)]
      | LEV_EDIT_LAST \<Rightarrow> [])"

definition lev_opcodes_to_editops ::
  "heap \<Rightarrow> LevOpCode list \<Rightarrow> bool \<Rightarrow> lev_error + LevEditOp list option \<times> size_out" where
  "lev_opcodes_to_editops heap bops keepkeep =
     (if bops = [] then Inr (None, Size 0)
      else
        let n = fold (\<lambda>b n. size_add n (block_count keepkeep b)) bops 0 in
        if heap n = None then Inr (None, Size_Max)
        else
          let ops = concat (map (block_ops keepkeep) bops) in
          if length ops > n then Inl OutOfBounds
          else if length ops = n then Inr (Some ops, Size n)
          else Inl AssertionFailed)"

text \<open>
  \<^verbatim>\<open>lev_editops_normalize\<close>. The result of \<^verbatim>\<open>safe_malloc\<close> is not tested: a failed request
  ends in a write through the null pointer.
\<close>

definition lev_editops_normalize ::
  "heap \<Rightarrow> LevEditOp list \<Rightarrow> lev_error + LevEditOp list option \<times> size_out" where
  "lev_editops_normalize heap ops =
     (if ops = [] then Inr (None, Size 0)
      else
        let nx = length (filter (\<lambda>op. LevEditOp.type op = LEV_EDIT_KEEP) ops);
            nnorm = length ops - nx
        in if nnorm = 0 then Inr (None, Size 0)
           else if heap nnorm = None then Inl OutOfBounds
           else Inr (Some (filter (\<lambda>op. LevEditOp.type op \<noteq> LEV_EDIT_KEEP) ops), Size nnorm))"

text \<open>The array behind a pointer to blocks.\<close>

fun bops_array :: "LevOpCode list option \<Rightarrow> LevOpCode list" where
  "bops_array None = []"
| "bops_array (Some bops) = bops"

section \<open>The round trip through block operation codes\<close>

text \<open>
  The operations of a list lie on a path from \<open>(0, 0)\<close>: every operation other than a keep
  is at the position reached so far, or ahead of it in the source or in the destination, and
  what remains of the two strings after the last operation has the same length. The position
  after an operation is the one of the operation, moved on by \<open>path_step\<close>.
\<close>

fun path_step :: "LevEditType \<Rightarrow> nat \<times> nat \<Rightarrow> nat \<times> nat" where
  "path_step LEV_EDIT_REPLACE (sp, dp) = (sp + 1, dp + 1)"
| "path_step LEV_EDIT_DELETE (sp, dp) = (sp + 1, dp)"
| "path_step LEV_EDIT_INSERT (sp, dp) = (sp, dp + 1)"
| "path_step t (sp, dp) = (sp, dp)"

fun on_path :: "nat \<Rightarrow> nat \<Rightarrow> nat \<times> nat \<Rightarrow> LevEditOp list \<Rightarrow> bool" where
  "on_path len1 len2 (sp, dp) [] =
     (sp < len1 \<or> dp < len2 \<longrightarrow> sp \<le> len1 \<and> dp \<le> len2 \<and> len1 - sp = len2 - dp)"
| "on_path len1 len2 (sp, dp) (op # ops) =
     (if LevEditOp.type op = LEV_EDIT_KEEP then on_path len1 len2 (sp, dp) ops
      else LevEditOp.type op \<noteq> LEV_EDIT_LAST \<and>
           (sp < spos op \<or> dp < dpos op \<or> (sp = spos op \<and> dp = dpos op)) \<and>
           on_path len1 len2 (path_step (LevEditOp.type op) (spos op, dpos op)) ops)"

text \<open>\<open>k\<close> operations of one type in a row, from a position on.\<close>

fun run_ops :: "LevEditType \<Rightarrow> nat \<times> nat \<Rightarrow> nat \<Rightarrow> LevEditOp list" where
  "run_ops t pos 0 = []"
| "run_ops t pos (Suc k) =
     \<lparr>LevEditOp.type = t, spos = fst pos, dpos = snd pos\<rparr> # run_ops t (path_step t pos) k"

definition is_edit :: "LevEditType \<Rightarrow> bool" where
  "is_edit t = (t = LEV_EDIT_REPLACE \<or> t = LEV_EDIT_DELETE \<or> t = LEV_EDIT_INSERT)"

abbreviation not_keep :: "LevEditOp \<Rightarrow> bool" where
  "not_keep \<equiv> (\<lambda>op. LevEditOp.type op \<noteq> LEV_EDIT_KEEP)"

text \<open>What \<^verbatim>\<open>/* check bounds */\<close> accepts, operation by operation.\<close>

definition op_ok :: "nat \<Rightarrow> nat \<Rightarrow> LevEditOp \<Rightarrow> bool" where
  "op_ok len1 len2 op =
     (LevEditOp.type op \<noteq> LEV_EDIT_LAST \<and> spos op \<le> len1 \<and> dpos op \<le> len2 \<and>
      (spos op = len1 \<longrightarrow> LevEditOp.type op = LEV_EDIT_INSERT) \<and>
      (dpos op = len2 \<longrightarrow> LevEditOp.type op = LEV_EDIT_DELETE))"

lemma check_bounds_ok:
  "check_bounds len1 len2 ops = LEV_EDIT_ERR_OK \<longleftrightarrow> list_all (op_ok len1 len2) ops"
  by (induction ops) (auto simp: op_ok_def)

lemma check_errors_ok:
  "lev_editops_check_errors len1 len2 ops = LEV_EDIT_ERR_OK \<Longrightarrow> list_all (op_ok len1 len2) ops"
  unfolding lev_editops_check_errors_def
  by (cases "ops = []") (auto simp: check_bounds_ok[symmetric] split: if_splits)

lemma size_add_small: "a + b < 2 ^ 64 \<Longrightarrow> size_add a b = a + b"
  by (simp add: size_add_def)

text \<open>On an operation that passed the check the increments do not wrap.\<close>

lemma block_step_ok:
  assumes "op_ok len1 len2 op" "len1 < 2 ^ 64" "len2 < 2 ^ 64"
    and "LevEditOp.type op = t" "spos op = sp" "dpos op = dp"
  shows "block_step t (sp, dp) = path_step t (sp, dp)"
    and "fst (path_step t (sp, dp)) \<le> len1" and "snd (path_step t (sp, dp)) \<le> len2"
proof -
  have b: "sp \<le> len1" "dp \<le> len2" "sp = len1 \<longrightarrow> t = LEV_EDIT_INSERT"
    "dp = len2 \<longrightarrow> t = LEV_EDIT_DELETE"
    using assms(1,4,5,6) by (auto simp: op_ok_def)
  have "block_step t (sp, dp) = path_step t (sp, dp) \<and>
        fst (path_step t (sp, dp)) \<le> len1 \<and> snd (path_step t (sp, dp)) \<le> len2"
  proof (cases t)
    case LEV_EDIT_REPLACE
    then have "sp < len1" "dp < len2" using b by auto
    then show ?thesis using LEV_EDIT_REPLACE assms(2,3) by (simp add: size_add_small)
  next
    case LEV_EDIT_DELETE
    then have "sp < len1" using b by auto
    then show ?thesis using LEV_EDIT_DELETE assms(2) b(2) by (simp add: size_add_small)
  next
    case LEV_EDIT_INSERT
    then have "dp < len2" using b by auto
    then show ?thesis using LEV_EDIT_INSERT assms(3) b(1) by (simp add: size_add_small)
  qed (use b in simp_all)
  then show "block_step t (sp, dp) = path_step t (sp, dp)"
    and "fst (path_step t (sp, dp)) \<le> len1" and "snd (path_step t (sp, dp)) \<le> len2"
    by blast+
qed

lemma block_run_decomp:
  assumes "len1 < 2 ^ 64" "len2 < 2 ^ 64"
  shows "list_all (op_ok len1 len2) ops \<Longrightarrow> fst pos \<le> len1 \<Longrightarrow> snd pos \<le> len2 \<Longrightarrow>
         block_run t pos ops = (pos', ops') \<Longrightarrow>
         \<exists>k. ops = run_ops t pos k @ ops' \<and> pos' = (path_step t ^^ k) pos \<and>
             fst pos' \<le> len1 \<and> snd pos' \<le> len2"
proof (induction t pos ops rule: block_run.induct)
  case (1 t sp dp)
  then have "[] = run_ops t (sp, dp) 0 @ ops' \<and> pos' = (path_step t ^^ 0) (sp, dp) \<and>
             fst pos' \<le> len1 \<and> snd pos' \<le> len2" by auto
  then show ?case by blast
next
  case (2 t sp dp op ops)
  show ?case
  proof (cases "LevEditOp.type op = t \<and> sp = spos op \<and> dp = dpos op")
    case True
    have ok: "op_ok len1 len2 op" "list_all (op_ok len1 len2) ops" using "2.prems"(1) by simp_all
    note st = block_step_ok[OF ok(1) assms, of t sp dp]
    have step: "block_step t (sp, dp) = path_step t (sp, dp)"
      and in1: "fst (path_step t (sp, dp)) \<le> len1" and in2: "snd (path_step t (sp, dp)) \<le> len2"
      using st True by simp_all
    have run: "block_run t (block_step t (sp, dp)) ops = (pos', ops')"
      using "2.prems"(4) True by simp
    from "2.IH"[OF True ok(2) _ _ run] in1 in2 step obtain k where
      k: "ops = run_ops t (path_step t (sp, dp)) k @ ops'"
         "pos' = (path_step t ^^ k) (path_step t (sp, dp))"
         "fst pos' \<le> len1" "snd pos' \<le> len2" by auto
    have "op = \<lparr>LevEditOp.type = t, spos = sp, dpos = dp\<rparr>" using True by simp
    then have "op # ops = run_ops t (sp, dp) (Suc k) @ ops'" using k(1) by simp
    moreover have "pos' = (path_step t ^^ Suc k) (sp, dp)" using k(2) by (simp add: funpow_swap1)
    ultimately show ?thesis using k(3,4) by blast
  next
    case False
    then have "op # ops = run_ops t (sp, dp) 0 @ ops' \<and> pos' = (path_step t ^^ 0) (sp, dp) \<and>
               fst pos' \<le> len1 \<and> snd pos' \<le> len2"
      using "2.prems" by auto
    then show ?thesis by blast
  qed
qed

lemma on_path_run_ops:
  "is_edit t \<Longrightarrow>
   on_path len1 len2 pos (run_ops t pos k @ ops) = on_path len1 len2 ((path_step t ^^ k) pos) ops"
proof (induction k arbitrary: pos)
  case 0
  then show ?case by simp
next
  case (Suc k)
  obtain sp dp where pos: "pos = (sp, dp)" by (cases pos)
  have t: "t \<noteq> LEV_EDIT_KEEP" "t \<noteq> LEV_EDIT_LAST" using Suc.prems by (auto simp: is_edit_def)
  show ?case using Suc.IH[OF Suc.prems, of "path_step t pos"] t
    by (simp add: pos funpow_swap1)
qed

lemma filter_run_ops: "t \<noteq> LEV_EDIT_KEEP \<Longrightarrow> filter not_keep (run_ops t pos k) = run_ops t pos k"
  by (induction k arbitrary: pos) simp_all

lemma length_run_ops: "length (run_ops t pos k) = k"
  by (induction k arbitrary: pos) simp_all

lemma on_path_dropWhile:
  "on_path len1 len2 pos (dropWhile (\<lambda>op. LevEditOp.type op = LEV_EDIT_KEEP) ops) =
   on_path len1 len2 pos ops"
proof -
  obtain sp dp where pos: "pos = (sp, dp)" by (cases pos)
  show ?thesis unfolding pos by (induction ops) simp_all
qed

lemma filter_dropWhile_keep:
  "filter not_keep (dropWhile (\<lambda>op. LevEditOp.type op = LEV_EDIT_KEEP) ops) = filter not_keep ops"
  by (induction ops) simp_all

lemma steps_REPLACE: "(path_step LEV_EDIT_REPLACE ^^ k) (sp, dp) = (sp + k, dp + k)"
  by (induction k arbitrary: sp dp) (simp_all add: funpow_swap1)

lemma steps_DELETE: "(path_step LEV_EDIT_DELETE ^^ k) (sp, dp) = (sp + k, dp)"
  by (induction k arbitrary: sp dp) (simp_all add: funpow_swap1)

lemma steps_INSERT: "(path_step LEV_EDIT_INSERT ^^ k) (sp, dp) = (sp, dp + k)"
  by (induction k arbitrary: sp dp) (simp_all add: funpow_swap1)

lemma size_sub_add [simp]: "size_sub (a + k) a = k" "size_sub a a = 0"
  by (simp_all add: size_sub_def)

lemma run_ops_REPLACE:
  "run_ops LEV_EDIT_REPLACE (sp, dp) k =
   map (\<lambda>j. \<lparr>LevEditOp.type = LEV_EDIT_REPLACE, spos = sp + j, dpos = dp + j\<rparr>) [0..<k]"
proof (induction k arbitrary: sp dp)
  case (Suc k)
  show ?case unfolding run_ops.simps path_step.simps Suc.IH
    by (simp add: map_upt_Suc del: upt_Suc)
qed simp

lemma run_ops_DELETE:
  "run_ops LEV_EDIT_DELETE (sp, dp) k =
   map (\<lambda>j. \<lparr>LevEditOp.type = LEV_EDIT_DELETE, spos = sp + j, dpos = dp\<rparr>) [0..<k]"
proof (induction k arbitrary: sp dp)
  case (Suc k)
  show ?case unfolding run_ops.simps path_step.simps Suc.IH
    by (simp add: map_upt_Suc del: upt_Suc)
qed simp

lemma run_ops_INSERT:
  "run_ops LEV_EDIT_INSERT (sp, dp) k =
   map (\<lambda>j. \<lparr>LevEditOp.type = LEV_EDIT_INSERT, spos = sp, dpos = dp + j\<rparr>) [0..<k]"
proof (induction k arbitrary: sp dp)
  case (Suc k)
  show ?case unfolding run_ops.simps path_step.simps Suc.IH
    by (simp add: map_upt_Suc del: upt_Suc)
qed simp

text \<open>
  A block from \<open>beg\<close> to the position \<open>k\<close> steps on stands for the \<open>k\<close> operations, when the
  positions do not wrap.
\<close>

lemma block_ops_run:
  assumes "is_edit t" "pos' = (path_step t ^^ k) beg" "fst pos' < 2 ^ 64" "snd pos' < 2 ^ 64"
  shows "block_ops False \<lparr>type = t, sbeg = fst beg, send = fst pos', dbeg = snd beg, dend = snd pos'\<rparr>
           = run_ops t beg k"
    and "block_count False \<lparr>type = t, sbeg = fst beg, send = fst pos', dbeg = snd beg, dend = snd pos'\<rparr>
           = k"
proof -
  obtain sp dp where beg: "beg = (sp, dp)" by (cases beg)
  consider "t = LEV_EDIT_REPLACE" | "t = LEV_EDIT_DELETE" | "t = LEV_EDIT_INSERT"
    using assms(1) by (auto simp: is_edit_def)
  then have "block_ops False \<lparr>type = t, sbeg = fst beg, send = fst pos', dbeg = snd beg, dend = snd pos'\<rparr>
           = run_ops t beg k \<and>
     block_count False \<lparr>type = t, sbeg = fst beg, send = fst pos', dbeg = snd beg, dend = snd pos'\<rparr>
           = k"
  proof cases
    case 1
    have p: "pos' = (sp + k, dp + k)" using assms(2) 1 by (simp add: beg steps_REPLACE)
    have "size_add sp j = sp + j \<and> size_add dp j = dp + j" if "j < k" for j
      using that assms(3,4) p by (simp add: size_add_small)
    then show ?thesis unfolding p beg using 1
      by (simp add: run_ops_REPLACE block_ops_def block_count_def)
  next
    case 2
    have p: "pos' = (sp + k, dp)" using assms(2) 2 by (simp add: beg steps_DELETE)
    have "size_add sp j = sp + j" if "j < k" for j
      using that assms(3) p by (simp add: size_add_small)
    then show ?thesis unfolding p beg using 2
      by (simp add: run_ops_DELETE block_ops_def block_count_def)
  next
    case 3
    have p: "pos' = (sp, dp + k)" using assms(2) 3 by (simp add: beg steps_INSERT)
    have "size_add dp j = dp + j" if "j < k" for j
      using that assms(4) p by (simp add: size_add_small)
    then show ?thesis unfolding p beg using 3
      by (simp add: run_ops_INSERT block_ops_def block_count_def)
  qed
  then show "block_ops False \<lparr>type = t, sbeg = fst beg, send = fst pos', dbeg = snd beg, dend = snd pos'\<rparr>
           = run_ops t beg k"
    and "block_count False \<lparr>type = t, sbeg = fst beg, send = fst pos', dbeg = snd beg, dend = snd pos'\<rparr>
           = k" by blast+
qed

lemma block_ops_keep [simp]:
  "block_ops False \<lparr>type = LEV_EDIT_KEEP, sbeg = a, send = b, dbeg = c, dend = d\<rparr> = []"
  "block_count False \<lparr>type = LEV_EDIT_KEEP, sbeg = a, send = b, dbeg = c, dend = d\<rparr> = 0"
  by (simp_all add: block_ops_def block_count_def)

text \<open>
  The two loops of \<^verbatim>\<open>lev_editops_to_opcodes\<close> on a list of checked operations on a path:
  they return, the second writes as many blocks as the first counts, at most two for an
  operation, and the blocks stand for the operations that are not keeps.
\<close>

definition blocks_ok ::
  "nat \<Rightarrow> nat \<Rightarrow> LevEditOp list \<Rightarrow> nat \<times> nat \<Rightarrow> LevOpCode list \<Rightarrow> nat \<times> nat \<Rightarrow> bool" where
  "blocks_ok len1 len2 ops pos blocks pos' =
     ((\<forall>nbl. nbl + length blocks < 2 ^ 64 \<longrightarrow>
         count_blocks ops pos nbl = Some (nbl + length blocks, pos')) \<and>
      (\<forall>cap bops. length bops + length blocks \<le> cap \<longrightarrow>
         write_blocks cap ops pos bops = Some (Inr (bops @ blocks, pos'))) \<and>
      concat (map (block_ops False) blocks) = filter not_keep ops \<and>
      sum_list (map (block_count False) blocks) = length (filter not_keep ops) \<and>
      length blocks \<le> 2 * length ops \<and>
      fst pos' \<le> len1 \<and> snd pos' \<le> len2 \<and>
      on_path len1 len2 pos' [])"

lemma loops_on_path:
  assumes len: "len1 < 2 ^ 64" "len2 < 2 ^ 64"
  shows "on_path len1 len2 pos ops \<Longrightarrow> list_all (op_ok len1 len2) ops \<Longrightarrow>
         fst pos \<le> len1 \<Longrightarrow> snd pos \<le> len2 \<Longrightarrow>
         \<exists>blocks pos'. blocks_ok len1 len2 ops pos blocks pos'"
proof (induction "length ops" arbitrary: ops pos rule: less_induct)
  case less
  let ?keep = "\<lambda>op. LevEditOp.type op = LEV_EDIT_KEEP"
  show ?case
  proof (cases "dropWhile ?keep ops")
    case Nil
    have f: "filter not_keep ops = []"
      using filter_dropWhile_keep[of ops] Nil by simp
    have p: "on_path len1 len2 pos []"
      using on_path_dropWhile[of len1 len2 pos ops] Nil less.prems(1) by simp
    have c: "count_blocks ops pos nbl = Some (nbl, pos)" for nbl
      by (subst count_blocks.simps) (simp only: Nil list.case)
    have w: "write_blocks cap ops pos bops = Some (Inr (bops, pos))" for cap bops
      by (subst write_blocks.simps) (simp only: Nil list.case)
    have "blocks_ok len1 len2 ops pos [] pos"
      unfolding blocks_ok_def using f p c w less.prems(3,4) by simp
    then show ?thesis by blast
  next
    case (Cons op rest)
    obtain sp dp where pos: "pos = (sp, dp)" by (cases pos)
    define t where "t = LevEditOp.type op"
    have nk: "t \<noteq> LEV_EDIT_KEEP"
      using hd_dropWhile[of ?keep ops] Cons by (simp add: t_def)
    have "set (dropWhile ?keep ops) \<subseteq> set ops" by (rule set_dropWhileD[THEN subsetI])
    then have "list_all (op_ok len1 len2) (op # rest)"
      using less.prems(2) Cons by (auto simp: list_all_iff)
    then have ok: "op_ok len1 len2 op" "list_all (op_ok len1 len2) rest" by simp_all
    have "on_path len1 len2 pos (op # rest)"
      using on_path_dropWhile[of len1 len2 pos ops] Cons less.prems(1) by simp
    then have nl: "t \<noteq> LEV_EDIT_LAST"
      and place: "sp < spos op \<or> dp < dpos op \<or> (sp = spos op \<and> dp = dpos op)"
      and path: "on_path len1 len2 (path_step t (spos op, dpos op)) rest"
      using nk by (simp_all add: pos t_def)
    have edit: "is_edit t" using nk nl by (cases t) (simp_all add: is_edit_def)
    then have edit': "t = LEV_EDIT_REPLACE \<or> t = LEV_EDIT_DELETE \<or> t = LEV_EDIT_INSERT"
      by (simp add: is_edit_def)
    define jump where "jump = (fst pos < spos op \<or> snd pos < dpos op)"
    define keep where "keep = (if jump
         then [\<lparr>type = LEV_EDIT_KEEP, sbeg = fst pos, send = spos op,
                dbeg = snd pos, dend = dpos op\<rparr>] else [])"
    define beg where "beg = (if jump then (spos op, dpos op) else pos)"
    have beg: "beg = (spos op, dpos op)" using place by (auto simp: beg_def jump_def pos)
    note st = block_step_ok[OF ok(1) len, of t "spos op" "dpos op"]
    have step: "block_step t beg = path_step t beg"
      and in1: "fst (path_step t beg) \<le> len1" and in2: "snd (path_step t beg) \<le> len2"
      using st by (simp_all add: beg t_def)
    obtain pos1 ops1 where run: "block_run t (block_step t beg) rest = (pos1, ops1)"
      by (cases "block_run t (block_step t beg) rest")
    from block_run_decomp[OF len ok(2) _ _ run[unfolded step]] in1 in2 obtain k where
      k: "rest = run_ops t (path_step t beg) k @ ops1"
         "pos1 = (path_step t ^^ k) (path_step t beg)"
         "fst pos1 \<le> len1" "snd pos1 \<le> len2"
      by blast
    have pos1: "pos1 = (path_step t ^^ Suc k) beg" using k(2) by (simp add: funpow_swap1)
    have path1: "on_path len1 len2 pos1 ops1"
      using path on_path_run_ops[OF edit, of len1 len2 "path_step t beg" k ops1] k(1,2)
      by (simp add: beg)
    have ok1': "list_all (op_ok len1 len2) ops1" using ok(2) k(1) by simp
    have le: "length (dropWhile ?keep ops) \<le> length ops" by (rule length_dropWhile_le)
    then have shorter: "length ops1 < length ops" using Cons k(1) by simp
    have count: "length ops1 + Suc k \<le> length ops"
      using le Cons k(1) by (simp add: length_run_ops)
    from less.hyps[OF shorter path1 ok1' k(3,4)] obtain blocks1 pos' where
      ok1: "blocks_ok len1 len2 ops1 pos1 blocks1 pos'" by blast
    define block where "block = \<lparr>type = t, sbeg = fst beg, send = fst pos1,
                                  dbeg = snd beg, dend = snd pos1\<rparr>"
    have opeq: "op = \<lparr>LevEditOp.type = t, spos = fst beg, dpos = snd beg\<rparr>"
      by (simp add: beg t_def)
    have all: "op # rest = run_ops t beg (Suc k) @ ops1" using k(1) opeq by simp
    have fl: "filter not_keep ops = run_ops t beg (Suc k) @ filter not_keep ops1"
      using filter_dropWhile_keep[of ops] Cons all filter_run_ops[OF nk, of beg "Suc k"]
      by (simp del: run_ops.simps)
    have small: "fst pos1 < 2 ^ 64" "snd pos1 < 2 ^ 64" using k(3,4) len by simp_all
    have bo: "block_ops False block = run_ops t beg (Suc k)" "block_count False block = Suc k"
      unfolding block_def by (rule block_ops_run[OF edit pos1 small])+
    have ko: "concat (map (block_ops False) keep) = []" "sum_list (map (block_count False) keep) = 0"
      by (simp_all add: keep_def)
    have lk: "length keep \<le> 1" by (simp add: keep_def)
    have cnt: "count_blocks ops pos nbl = Some (nbl + length (keep @ block # blocks1), pos')"
      if fit: "nbl + length (keep @ block # blocks1) < 2 ^ 64" for nbl
    proof -
      define nbl1 where "nbl1 = (if jump then size_add nbl 2 else size_add nbl 1)"
      have n1: "nbl1 = nbl + length keep + 1"
        using fit by (auto simp: nbl1_def keep_def size_add_small)
      have "count_blocks ops pos nbl = count_blocks ops1 pos1 nbl1"
        using run edit'
        by (subst count_blocks.simps)
           (simp add: Cons t_def[symmetric] jump_def[symmetric] beg_def[symmetric]
              nbl1_def[symmetric])
      also have "\<dots> = Some (nbl1 + length blocks1, pos')"
        using ok1 fit unfolding blocks_ok_def n1 by simp
      finally show ?thesis by (simp add: n1)
    qed
    have wr: "write_blocks cap ops pos bops = Some (Inr (bops @ keep @ block # blocks1, pos'))"
      if "length bops + length (keep @ block # blocks1) \<le> cap" for cap bops
    proof -
      have c: "\<not> length (bops @ keep) \<ge> cap" using that by simp
      have "write_blocks cap ops pos bops = write_blocks cap ops1 pos1 (bops @ keep @ [block])"
        using run edit' c
        by (subst write_blocks.simps)
           (simp add: Cons Let_def t_def[symmetric] jump_def[symmetric] keep_def[symmetric]
              beg_def[symmetric] block_def[symmetric])
      also have "\<dots> = Some (Inr ((bops @ keep @ [block]) @ blocks1, pos'))"
        using ok1 that unfolding blocks_ok_def by simp
      finally show ?thesis by simp
    qed
    have "blocks_ok len1 len2 ops pos (keep @ block # blocks1) pos'"
      unfolding blocks_ok_def
    proof (intro conjI allI impI)
      show "concat (map (block_ops False) (keep @ block # blocks1)) = filter not_keep ops"
        using ok1 ko bo fl unfolding blocks_ok_def by simp
      show "sum_list (map (block_count False) (keep @ block # blocks1)) = length (filter not_keep ops)"
        using ok1 ko bo fl unfolding blocks_ok_def by (simp add: length_run_ops del: run_ops.simps)
      show "length (keep @ block # blocks1) \<le> 2 * length ops"
        using ok1 lk count unfolding blocks_ok_def by simp
      show "fst pos' \<le> len1" "snd pos' \<le> len2" "on_path len1 len2 pos' []"
        using ok1 unfolding blocks_ok_def by blast+
    qed (use cnt wr in blast)+
    then show ?thesis by blast
  qed
qed

lemma to_opcodes_on_path:
  assumes heap: "\<And>n. heap n \<noteq> None" and len: "len1 < 2 ^ 64" "len2 < 2 ^ 64"
    and n: "length ops < 2 ^ 63"
    and ok: "list_all (op_ok len1 len2) ops" and path: "on_path len1 len2 (0, 0) ops"
  shows "\<exists>bops. lev_editops_to_opcodes heap ops len1 len2 = Some (Inr (Some bops, Size (length bops))) \<and>
           concat (map (block_ops False) bops) = filter not_keep ops \<and>
           sum_list (map (block_count False) bops) = length (filter not_keep ops)"
proof -
  from loops_on_path[OF len path ok] obtain blocks pos' where
    ok: "blocks_ok len1 len2 ops (0, 0) blocks pos'"
    by auto
  obtain sp dp where pos': "pos' = (sp, dp)" by (cases pos')
  have lb: "length blocks \<le> 2 * length ops" using ok unfolding blocks_ok_def by blast
  have "2 * length ops + 1 < (2::nat) ^ 64" using n by simp
  then have fit: "length blocks + 1 < 2 ^ 64" using lb by linarith
  have cnt: "count_blocks ops (0, 0) 0 = Some (length blocks, sp, dp)"
    using ok fit unfolding blocks_ok_def pos' by simp
  have wr: "write_blocks cap ops (0, 0) [] = Some (Inr (blocks, sp, dp))" if "length blocks \<le> cap" for cap
    using ok that unfolding blocks_ok_def pos' by simp
  have cc: "concat (map (block_ops False) blocks) = filter not_keep ops"
    and sc: "sum_list (map (block_count False) blocks) = length (filter not_keep ops)"
    and fin: "sp < len1 \<or> dp < len2 \<longrightarrow> sp \<le> len1 \<and> dp \<le> len2 \<and> len1 - sp = len2 - dp"
    using ok unfolding blocks_ok_def pos' by simp_all
  show ?thesis
  proof (cases "sp < len1 \<or> dp < len2")
    case True
    then have "sp \<le> len1" "dp \<le> len2" "len1 - sp = len2 - dp" using fin by simp_all
    then have ss: "size_sub len1 sp = size_sub len2 dp" by (simp add: size_sub_def)
    have sa: "size_add (length blocks) (Suc 0) = Suc (length blocks)"
      using size_add_small[OF fit] by simp
    let ?last = "\<lparr>type = LEV_EDIT_KEEP, sbeg = sp, send = len1, dbeg = dp, dend = len2\<rparr>"
    have "lev_editops_to_opcodes heap ops len1 len2 =
            Some (Inr (Some (blocks @ [?last]), Size (length (blocks @ [?last]))))"
      unfolding lev_editops_to_opcodes_def cnt
      using True heap[of "Suc (length blocks)"] ss wr[of "Suc (length blocks)"]
      by (simp add: Let_def sa)
    moreover have "concat (map (block_ops False) (blocks @ [?last])) = filter not_keep ops"
      using cc by simp
    moreover have "sum_list (map (block_count False) (blocks @ [?last])) = length (filter not_keep ops)"
      using sc by simp
    ultimately show ?thesis by blast
  next
    case False
    have "lev_editops_to_opcodes heap ops len1 len2 = Some (Inr (Some blocks, Size (length blocks)))"
      unfolding lev_editops_to_opcodes_def cnt
      using False heap[of "length blocks"] wr[of "length blocks"]
      by (simp add: Let_def)
    then show ?thesis using cc sc by blast
  qed
qed

lemma normalize_filter:
  assumes heap: "\<And>n. heap n \<noteq> None"
  shows "\<exists>r. lev_editops_normalize heap ops = Inr (r, Size (length (filter not_keep ops))) \<and>
           ops_array r = filter not_keep ops"
proof -
  have len: "length ops - length (filter (\<lambda>op. LevEditOp.type op = LEV_EDIT_KEEP) ops)
               = length (filter not_keep ops)"
    using sum_length_filter_compl[of "\<lambda>op. LevEditOp.type op = LEV_EDIT_KEEP" ops] by simp
  show ?thesis
  proof (cases "filter not_keep ops = []")
    case True
    then have "lev_editops_normalize heap ops = Inr (None, Size 0)"
      unfolding lev_editops_normalize_def Let_def len by simp
    then show ?thesis using True by simp
  next
    case False
    then have "ops \<noteq> []" by auto
    then have "lev_editops_normalize heap ops =
                 Inr (Some (filter not_keep ops), Size (length (filter not_keep ops)))"
      unfolding lev_editops_normalize_def Let_def len
      using False heap[of "length (filter not_keep ops)"] by simp
    then show ?thesis by simp
  qed
qed

lemma fold_size_add:
  "n + sum_list (map f bops) < 2 ^ 64 \<Longrightarrow>
   fold (\<lambda>b n. size_add n (f b)) bops n = n + sum_list (map f bops)"
proof (induction bops arbitrary: n)
  case (Cons b bops)
  have "size_add n (f b) = n + f b" using Cons.prems by (simp add: size_add_small)
  then show ?case using Cons.IH[of "n + f b"] Cons.prems by (simp add: add.assoc)
qed simp

lemma to_editops_concat:
  assumes heap: "\<And>n. heap n \<noteq> None"
    and cc: "concat (map (block_ops False) bops) = xs"
    and sc: "sum_list (map (block_count False) bops) = length xs"
    and n: "length xs < 2 ^ 64"
  shows "\<exists>r. lev_opcodes_to_editops heap bops False = Inr (r, Size (length xs)) \<and> ops_array r = xs"
proof (cases "bops = []")
  case True
  then have "xs = []" using cc by simp
  then show ?thesis using True by (simp add: lev_opcodes_to_editops_def)
next
  case False
  have f: "fold (\<lambda>b n. size_add n (block_count False b)) bops 0 = length xs"
    using fold_size_add[of 0 "block_count False" bops] sc n by simp
  have "lev_opcodes_to_editops heap bops False = Inr (Some xs, Size (length xs))"
    unfolding lev_opcodes_to_editops_def Let_def cc f using False heap[of "length xs"] by simp
  then show ?thesis by simp
qed

section \<open>Claims about the block operation codes\<close>

text \<open>
  C9, as the code has it. Let \<open>ops\<close> be a list of fewer than \<open>2\<^sup>6\<^sup>3\<close> operations that
  \<^verbatim>\<open>lev_editops_check_errors\<close> accepts for the lengths \<open>len1\<close> and \<open>len2\<close>, and let its operations
  lie on a path. When no allocation fails, \<^verbatim>\<open>lev_editops_to_opcodes\<close> returns blocks, and
  \<^verbatim>\<open>lev_opcodes_to_editops\<close> without keeps turns them into the array that
  \<^verbatim>\<open>lev_editops_normalize\<close> makes of \<open>ops\<close>, operation for operation, with the same length:
  the operations of \<open>ops\<close> that are not keeps, in their order.
\<close>

theorem C9_round_trip_on_path:
  assumes heap: "\<And>n. heap n \<noteq> None"
    and len: "len1 < 2 ^ 64" "len2 < 2 ^ 64" "length ops < 2 ^ 63"
    and valid: "lev_editops_check_errors len1 len2 ops = LEV_EDIT_ERR_OK"
    and path: "on_path len1 len2 (0, 0) ops"
  shows "\<exists>bops r r' n.
           lev_editops_to_opcodes heap ops len1 len2 = Some (Inr (Some bops, Size (length bops))) \<and>
           lev_opcodes_to_editops heap bops False = Inr (r, Size n) \<and>
           lev_editops_normalize heap ops = Inr (r', Size n) \<and>
           ops_array r = ops_array r' \<and>
           ops_array r' = filter not_keep ops \<and>
           n = length (ops_array r)"
proof -
  note ok = check_errors_ok[OF valid]
  from to_opcodes_on_path[of heap, OF heap len ok path] obtain bops where
    b: "lev_editops_to_opcodes heap ops len1 len2 = Some (Inr (Some bops, Size (length bops)))"
       "concat (map (block_ops False) bops) = filter not_keep ops"
       "sum_list (map (block_count False) bops) = length (filter not_keep ops)"
    by blast
  have "length (filter not_keep ops) \<le> length ops" by (rule length_filter_le)
  moreover have "(2::nat) ^ 63 < 2 ^ 64" by simp
  ultimately have "length (filter not_keep ops) < 2 ^ 64" using len(3) by linarith
  from to_editops_concat[of heap, OF heap b(2) b(3) this] obtain r where
    r: "lev_opcodes_to_editops heap bops False = Inr (r, Size (length (filter not_keep ops)))"
       "ops_array r = filter not_keep ops" by blast
  from normalize_filter[of heap ops, OF heap] obtain r' where
    r': "lev_editops_normalize heap ops = Inr (r', Size (length (filter not_keep ops)))"
        "ops_array r' = filter not_keep ops" by blast
  show ?thesis using b(1) r r' by (intro exI[of _ bops] exI[of _ r] exI[of _ r']
        exI[of _ "length (filter not_keep ops)"]) simp
qed

theorem C9_round_trip_witness:
  "lev_editops_check_errors 3 3
     [\<lparr>LevEditOp.type = LEV_EDIT_DELETE, spos = 0, dpos = 0\<rparr>,
      \<lparr>LevEditOp.type = LEV_EDIT_KEEP, spos = 1, dpos = 0\<rparr>,
      \<lparr>LevEditOp.type = LEV_EDIT_INSERT, spos = 2, dpos = 1\<rparr>,
      \<lparr>LevEditOp.type = LEV_EDIT_REPLACE, spos = 2, dpos = 2\<rparr>] = LEV_EDIT_ERR_OK \<and>
   on_path 3 3 (0, 0)
     [\<lparr>LevEditOp.type = LEV_EDIT_DELETE, spos = 0, dpos = 0\<rparr>,
      \<lparr>LevEditOp.type = LEV_EDIT_KEEP, spos = 1, dpos = 0\<rparr>,
      \<lparr>LevEditOp.type = LEV_EDIT_INSERT, spos = 2, dpos = 1\<rparr>,
      \<lparr>LevEditOp.type = LEV_EDIT_REPLACE, spos = 2, dpos = 2\<rparr>] \<and>
   (\<exists>bops r r' n.
      lev_editops_to_opcodes (\<lambda>n. Some (\<lambda>k. 0))
        [\<lparr>LevEditOp.type = LEV_EDIT_DELETE, spos = 0, dpos = 0\<rparr>,
         \<lparr>LevEditOp.type = LEV_EDIT_KEEP, spos = 1, dpos = 0\<rparr>,
         \<lparr>LevEditOp.type = LEV_EDIT_INSERT, spos = 2, dpos = 1\<rparr>,
         \<lparr>LevEditOp.type = LEV_EDIT_REPLACE, spos = 2, dpos = 2\<rparr>] 3 3
        = Some (Inr (Some bops, Size (length bops))) \<and>
      lev_opcodes_to_editops (\<lambda>n. Some (\<lambda>k. 0)) bops False = Inr (r, Size n) \<and>
      lev_editops_normalize (\<lambda>n. Some (\<lambda>k. 0))
        [\<lparr>LevEditOp.type = LEV_EDIT_DELETE, spos = 0, dpos = 0\<rparr>,
         \<lparr>LevEditOp.type = LEV_EDIT_KEEP, spos = 1, dpos = 0\<rparr>,
         \<lparr>LevEditOp.type = LEV_EDIT_INSERT, spos = 2, dpos = 1\<rparr>,
         \<lparr>LevEditOp.type = LEV_EDIT_REPLACE, spos = 2, dpos = 2\<rparr>] = Inr (r', Size n) \<and>
      ops_array r = ops_array r' \<and>
      ops_array r' =
        [\<lparr>LevEditOp.type = LEV_EDIT_DELETE, spos = 0, dpos = 0\<rparr>,
         \<lparr>LevEditOp.type = LEV_EDIT_INSERT, spos = 2, dpos = 1\<rparr>,
         \<lparr>LevEditOp.type = LEV_EDIT_REPLACE, spos = 2, dpos = 2\<rparr>] \<and>
      n = 3)"
proof -
  let ?ops = "[\<lparr>LevEditOp.type = LEV_EDIT_DELETE, spos = 0, dpos = 0\<rparr>,
      \<lparr>LevEditOp.type = LEV_EDIT_KEEP, spos = 1, dpos = 0\<rparr>,
      \<lparr>LevEditOp.type = LEV_EDIT_INSERT, spos = 2, dpos = 1\<rparr>,
      \<lparr>LevEditOp.type = LEV_EDIT_REPLACE, spos = 2, dpos = 2\<rparr>]"
  have p: "on_path 3 3 (0, 0) ?ops" by simp
  have v: "lev_editops_check_errors 3 3 ?ops = LEV_EDIT_ERR_OK" by code_simp
  have l: "(3::nat) < 2 ^ 64" "length ?ops < 2 ^ 63" by simp_all
  have h: "\<And>n. (\<lambda>n. Some (\<lambda>k. 0 :: nat)) n \<noteq> None" by simp
  have f: "filter not_keep ?ops =
        [\<lparr>LevEditOp.type = LEV_EDIT_DELETE, spos = 0, dpos = 0\<rparr>,
         \<lparr>LevEditOp.type = LEV_EDIT_INSERT, spos = 2, dpos = 1\<rparr>,
         \<lparr>LevEditOp.type = LEV_EDIT_REPLACE, spos = 2, dpos = 2\<rparr>]" by simp
  from C9_round_trip_on_path[of "\<lambda>n. Some (\<lambda>k. 0)" 3 3 ?ops, OF h l(1) l(1) l(2) v p]
  obtain bops r r' n where
    "lev_editops_to_opcodes (\<lambda>n. Some (\<lambda>k. 0)) ?ops 3 3 = Some (Inr (Some bops, Size (length bops)))"
    "lev_opcodes_to_editops (\<lambda>n. Some (\<lambda>k. 0)) bops False = Inr (r, Size n)"
    "lev_editops_normalize (\<lambda>n. Some (\<lambda>k. 0)) ?ops = Inr (r', Size n)"
    "ops_array r = ops_array r'"
    "ops_array r' = filter not_keep ?ops"
    "n = length (ops_array r)" by blast
  then show ?thesis using p v unfolding f
    by (intro conjI exI[of _ bops] exI[of _ r] exI[of _ r'] exI[of _ n]) simp_all
qed

text \<open>
  C9 as stated fails for a list that \<^verbatim>\<open>lev_editops_check_errors\<close> accepts: two replacements
  at \<open>(0, 0)\<close> for strings of length one. The second operation is behind the position \<open>(1, 1)\<close>
  reached by the first and is taken to be there: the round trip returns a replacement at
  \<open>(0, 0)\<close> and one at \<open>(1, 1)\<close>, and the normalized list is the list itself.
\<close>

theorem C9_round_trip_counterexample:
  "lev_editops_check_errors 1 1
     [\<lparr>LevEditOp.type = LEV_EDIT_REPLACE, spos = 0, dpos = 0\<rparr>,
      \<lparr>LevEditOp.type = LEV_EDIT_REPLACE, spos = 0, dpos = 0\<rparr>] = LEV_EDIT_ERR_OK \<and>
   lev_editops_to_opcodes (\<lambda>n. Some (\<lambda>k. 0))
     [\<lparr>LevEditOp.type = LEV_EDIT_REPLACE, spos = 0, dpos = 0\<rparr>,
      \<lparr>LevEditOp.type = LEV_EDIT_REPLACE, spos = 0, dpos = 0\<rparr>] 1 1 =
     Some (Inr (Some [\<lparr>type = LEV_EDIT_REPLACE, sbeg = 0, send = 1, dbeg = 0, dend = 1\<rparr>,
                      \<lparr>type = LEV_EDIT_REPLACE, sbeg = 1, send = 2, dbeg = 1, dend = 2\<rparr>], Size 2)) \<and>
   lev_opcodes_to_editops (\<lambda>n. Some (\<lambda>k. 0))
     [\<lparr>type = LEV_EDIT_REPLACE, sbeg = 0, send = 1, dbeg = 0, dend = 1\<rparr>,
      \<lparr>type = LEV_EDIT_REPLACE, sbeg = 1, send = 2, dbeg = 1, dend = 2\<rparr>] False =
     Inr (Some [\<lparr>LevEditOp.type = LEV_EDIT_REPLACE, spos = 0, dpos = 0\<rparr>,
                \<lparr>LevEditOp.type = LEV_EDIT_REPLACE, spos = 1, dpos = 1\<rparr>], Size 2) \<and>
   lev_editops_normalize (\<lambda>n. Some (\<lambda>k. 0))
     [\<lparr>LevEditOp.type = LEV_EDIT_REPLACE, spos = 0, dpos = 0\<rparr>,
      \<lparr>LevEditOp.type = LEV_EDIT_REPLACE, spos = 0, dpos = 0\<rparr>] =
     Inr (Some [\<lparr>LevEditOp.type = LEV_EDIT_REPLACE, spos = 0, dpos = 0\<rparr>,
                \<lparr>LevEditOp.type = LEV_EDIT_REPLACE, spos = 0, dpos = 0\<rparr>], Size 2)"
proof -
  let ?ops = "[\<lparr>LevEditOp.type = LEV_EDIT_REPLACE, spos = 0, dpos = 0\<rparr>,
      \<lparr>LevEditOp.type = LEV_EDIT_REPLACE, spos = 0, dpos = 0\<rparr>]"
  let ?bops = "[\<lparr>type = LEV_EDIT_REPLACE, sbeg = 0, send = 1, dbeg = 0, dend = 1\<rparr>,
      \<lparr>type = LEV_EDIT_REPLACE, sbeg = 1, send = 2, dbeg = 1, dend = 2\<rparr>]"
  have a: "lev_editops_check_errors 1 1 ?ops = LEV_EDIT_ERR_OK" by code_simp
  have cb: "count_blocks ?ops (0, 0) 0 = Some (2, 2, 2)"
    by (subst count_blocks.simps, simp add: size_add_def)+
  have wb: "write_blocks 2 ?ops (0, 0) [] = Some (Inr (?bops, 2, 2))"
    by (subst write_blocks.simps, simp add: size_add_def)+
  have b: "lev_editops_to_opcodes (\<lambda>n. Some (\<lambda>k. 0)) ?ops 1 1 = Some (Inr (Some ?bops, Size 2))"
    unfolding lev_editops_to_opcodes_def cb by (simp add: wb)
  have c: "lev_opcodes_to_editops (\<lambda>n. Some (\<lambda>k. 0)) ?bops False =
     Inr (Some [\<lparr>LevEditOp.type = LEV_EDIT_REPLACE, spos = 0, dpos = 0\<rparr>,
                \<lparr>LevEditOp.type = LEV_EDIT_REPLACE, spos = 1, dpos = 1\<rparr>], Size 2)"
    by (simp add: lev_opcodes_to_editops_def block_count_def block_ops_def size_add_def
        size_sub_def upt_rec[of 0])
  have d: "lev_editops_normalize (\<lambda>n. Some (\<lambda>k. 0)) ?ops = Inr (Some ?ops, Size 2)"
    by code_simp
  show ?thesis using a b c d by (intro conjI)
qed

end
